theory Spec2Isabelle
  imports Complex_Main "HOL-Library.AList" "HOL-Library.Sublist" "HOL-Library.Word"
begin

section \<open>JavaScript values that reach the cache\<close>

text \<open>
  The module \<^verbatim>\<open>src/index.js\<close> exports one class, \<^verbatim>\<open>Cache\<close>. Its methods receive
  arbitrary JavaScript values and check their type first. A \<^verbatim>\<open>Buffer\<close> is a sequence of
  bytes of fixed length; only its length and its identity are used by the cache.
  A finite number is modelled by its rational value (every finite double is one);
  \<^verbatim>\<open>NaN\<close> and the two infinities are values of their own.
\<close>

type_synonym buffer = "8 word list"

datatype jsval =
    JUndefined
  | JNull
  | JBoolean bool
  | JNumber rat
  | JNaN
  | JInfinity bool
  | JString string
  | JBuffer buffer
  | JObject

text \<open>
  \<^verbatim>\<open>typeof x\<close> and \<^verbatim>\<open>x instanceof Buffer\<close>, the two tests the methods make on their
  arguments. The methods below branch on the constructor of the argument, which is the same
  test (lemmas \<open>typeof_string\<close> and \<open>instanceof_Buffer_iff\<close>).
\<close>

definition typeof :: "jsval \<Rightarrow> string" where
  "typeof x =
     (case x of
        JUndefined \<Rightarrow> ''undefined''
      | JNull \<Rightarrow> ''object''
      | JBoolean b \<Rightarrow> ''boolean''
      | JNumber r \<Rightarrow> ''number''
      | JNaN \<Rightarrow> ''number''
      | JInfinity b \<Rightarrow> ''number''
      | JString s \<Rightarrow> ''string''
      | JBuffer b \<Rightarrow> ''object''
      | JObject \<Rightarrow> ''object'')"

definition instanceof_Buffer :: "jsval \<Rightarrow> bool" where
  "instanceof_Buffer x = (case x of JBuffer b \<Rightarrow> True | _ \<Rightarrow> False)"

datatype error = TypeError string

text \<open>
  The values the frequency table can hold. The source only ever stores \<^verbatim>\<open>0\<close>, a stored
  count, or a stored count plus one; \<^verbatim>\<open>Map.prototype.get\<close> on a missing key is
  \<^verbatim>\<open>undefined\<close>, and \<^verbatim>\<open>undefined + 1\<close> is \<^verbatim>\<open>NaN\<close>. Counts are integers far below
  \<open>2^53\<close>, where double arithmetic is exact.
\<close>

datatype count = Num int | NaN | Undefined

fun plus_one :: "count \<Rightarrow> count" where
  "plus_one (Num n) = Num (n + 1)"
| "plus_one NaN = NaN"
| "plus_one Undefined = NaN"

fun is_Num :: "count \<Rightarrow> bool" where
  "is_Num (Num n) = True"
| "is_Num NaN = False"
| "is_Num Undefined = False"

fun the_Num :: "count \<Rightarrow> int" where
  "the_Num (Num n) = n"
| "the_Num NaN = 0"
| "the_Num Undefined = 0"

section \<open>The insertion-ordered Map\<close>

text \<open>
  A JavaScript \<^verbatim>\<open>Map\<close> iterates in insertion order: \<^verbatim>\<open>set\<close> on a present key
  replaces the value in place, \<^verbatim>\<open>set\<close> on an absent key appends, \<^verbatim>\<open>delete\<close> removes
  the entry. This is an association list with \<^const>\<open>AList.update\<close> and
  \<^const>\<open>AList.delete\<close>; \<^const>\<open>map_of\<close> is the lookup.
\<close>

definition Map_has :: "('k \<times> 'v) list \<Rightarrow> 'k \<Rightarrow> bool" where
  "Map_has m k = (map_of m k \<noteq> None)"

definition Map_get_count :: "(string \<times> count) list \<Rightarrow> string \<Rightarrow> count" where
  "Map_get_count m k = (case map_of m k of None \<Rightarrow> Undefined | Some c \<Rightarrow> c)"

section \<open>Array.prototype.sort with the comparator of \<^verbatim>\<open>#free\<close>\<close>

text \<open>
  \<^verbatim>\<open>(a, b) => a[1] - b[1]\<close>: the difference of two numbers; with \<^verbatim>\<open>NaN\<close> or
  \<^verbatim>\<open>undefined\<close> on either side the difference is \<^verbatim>\<open>NaN\<close>, which \<^verbatim>\<open>sort\<close> reads as
  \<open>0\<close>. \<^verbatim>\<open>sort\<close> is stable (ECMAScript 2019), so on numbers its result is the stable
  insertion sort below.
\<close>

fun compare_count :: "string \<times> count \<Rightarrow> string \<times> count \<Rightarrow> int" where
  "compare_count (ka, Num a) (kb, Num b) = a - b"
| "compare_count _ _ = 0"

fun insort_by :: "('a \<Rightarrow> 'a \<Rightarrow> int) \<Rightarrow> 'a \<Rightarrow> 'a list \<Rightarrow> 'a list" where
  "insort_by cmp x [] = [x]"
| "insort_by cmp x (y # ys) = (if cmp x y \<le> 0 then x # y # ys else y # insort_by cmp x ys)"

definition sort_by :: "('a \<Rightarrow> 'a \<Rightarrow> int) \<Rightarrow> 'a list \<Rightarrow> 'a list" where
  "sort_by cmp xs = foldr (insort_by cmp) xs []"

section \<open>The class Cache\<close>

text \<open>
  The private fields \<^verbatim>\<open>#maxSize\<close>, \<^verbatim>\<open>#size\<close>, \<^verbatim>\<open>#data\<close> and \<^verbatim>\<open>#accessCount\<close>.
  Sizes are byte counts bounded by \<^verbatim>\<open>#maxSize\<close>, a safe integer, so the arithmetic on
  them is exact integer arithmetic.
\<close>

record cache =
  h_maxSize :: int
  h_size :: int
  h_data :: "(string \<times> buffer) list"
  h_accessCount :: "(string \<times> count) list"

text \<open>
  A method takes the object and returns what it returned or threw, together with the
  object as the call left it: a mutation made before a \<^verbatim>\<open>throw\<close> would show in the
  second component.
\<close>

type_synonym 'a outcome = "(error + 'a) \<times> cache"

text \<open>\<^verbatim>\<open>#hasCapacity(value) { return this.#maxSize - this.#size >= value; }\<close>\<close>

definition hasCapacity :: "int \<Rightarrow> cache \<Rightarrow> bool" where
  "hasCapacity v c = (h_maxSize c - h_size c \<ge> v)"

text \<open>
  The constructor, \<^verbatim>\<open>constructor(maxSize = 0)\<close>: an argument that is \<^verbatim>\<open>undefined\<close>
  (or left out) is replaced by the default \<^verbatim>\<open>0\<close>; then
  \<^verbatim>\<open>if (!Number.isSafeInteger(maxSize) || maxSize < 0) throw new TypeError(...)\<close>, and
  \<^verbatim>\<open>this.#maxSize = maxSize\<close>. The comparison with \<open>0\<close> is only reached for a number.
\<close>

definition isSafeInteger :: "jsval \<Rightarrow> bool" where
  "isSafeInteger x =
     (case x of JNumber r \<Rightarrow> of_int \<lfloor>r\<rfloor> = r \<and> \<bar>r\<bar> \<le> 2 ^ 53 - 1 | _ \<Rightarrow> False)"

definition less_zero :: "jsval \<Rightarrow> bool" where
  "less_zero x = (case x of JNumber r \<Rightarrow> r < 0 | _ \<Rightarrow> False)"

definition to_int :: "jsval \<Rightarrow> int" where
  "to_int x = (case x of JNumber r \<Rightarrow> \<lfloor>r\<rfloor> | _ \<Rightarrow> 0)"

definition new_Cache :: "jsval \<Rightarrow> error + cache" where
  "new_Cache arg =
     (let maxSize = (if arg = JUndefined then JNumber 0 else arg) in
      if \<not> isSafeInteger maxSize \<or> less_zero maxSize
      then Inl (TypeError ''Expected maxSize to be a positive Integer'')
      else Inr \<lparr>h_maxSize = to_int maxSize, h_size = 0, h_data = [], h_accessCount = []\<rparr>)"

text \<open>The accessors \<^verbatim>\<open>size\<close> and \<^verbatim>\<open>maxSize\<close>, and \<^verbatim>\<open>keys()\<close>, the keys of \<^verbatim>\<open>#data\<close>.\<close>

definition size_get :: "cache \<Rightarrow> int" where
  "size_get c = h_size c"

definition maxSize_get :: "cache \<Rightarrow> int" where
  "maxSize_get c = h_maxSize c"

definition keys :: "cache \<Rightarrow> string list" where
  "keys c = map fst (h_data c)"

text \<open>
  \<^verbatim>\<open>get(key)\<close>: throws unless \<^verbatim>\<open>typeof key\<close> is \<^verbatim>\<open>'string'\<close>; returns
  \<^verbatim>\<open>undefined\<close> when \<^verbatim>\<open>#data\<close> has no such key; otherwise
  \<^verbatim>\<open>this.#accessCount.set(key, this.#accessCount.get(key) + 1)\<close> and the stored value.
\<close>

definition get :: "jsval \<Rightarrow> cache \<Rightarrow> jsval outcome" where
  "get key c =
     (case key of
        JString k \<Rightarrow>
          (case map_of (h_data c) k of
             None \<Rightarrow> (Inr JUndefined, c)
           | Some v \<Rightarrow>
               (Inr (JBuffer v),
                c\<lparr>h_accessCount :=
                    AList.update k (plus_one (Map_get_count (h_accessCount c) k))
                      (h_accessCount c)\<rparr>))
      | _ \<Rightarrow> (Inl (TypeError ''Expected key to be a String''), c))"

text \<open>\<^verbatim>\<open>has(key)\<close>: the type test, then \<^verbatim>\<open>this.#data.has(key)\<close>.\<close>

definition has :: "jsval \<Rightarrow> cache \<Rightarrow> bool outcome" where
  "has key c =
     (case key of
        JString k \<Rightarrow> (Inr (Map_has (h_data c) k), c)
      | _ \<Rightarrow> (Inl (TypeError ''Expected key to be a String''), c))"

text \<open>
  \<^verbatim>\<open>delete(key)\<close>: the type test; \<^verbatim>\<open>false\<close> when the key is not stored; otherwise the
  size drops by the length of the stored value and the key leaves both \<^verbatim>\<open>#data\<close> and
  \<^verbatim>\<open>#accessCount\<close>.
\<close>

definition delete :: "jsval \<Rightarrow> cache \<Rightarrow> bool outcome" where
  "delete key c =
     (case key of
        JString k \<Rightarrow>
          (case map_of (h_data c) k of
             None \<Rightarrow> (Inr False, c)
           | Some v \<Rightarrow>
               (Inr True,
                c\<lparr>h_size := h_size c - int (length v),
                  h_data := AList.delete k (h_data c),
                  h_accessCount := AList.delete k (h_accessCount c)\<rparr>))
      | _ \<Rightarrow> (Inl (TypeError ''Expected key to be a String''), c))"

text \<open>
  \<^verbatim>\<open>#free(neededSize)\<close>: nothing to do when the value fits; otherwise the entries of
  \<^verbatim>\<open>#accessCount\<close> are copied into an array and sorted by count, and
  \<^verbatim>\<open>while (!this.#hasCapacity(neededSize) && sortedAccessCounts.length !== 0)
    this.delete(sortedAccessCounts.shift()[0]);\<close>
  \<open>free_loop\<close> is that loop, over what is left of the sorted array.
\<close>

fun free_loop :: "int \<Rightarrow> (string \<times> count) list \<Rightarrow> cache \<Rightarrow> unit outcome" where
  "free_loop neededSize [] c = (Inr (), c)"
| "free_loop neededSize (e # es) c =
     (if hasCapacity neededSize c then (Inr (), c)
      else (case delete (JString (fst e)) c of
              (Inl err, c') \<Rightarrow> (Inl err, c')
            | (Inr _, c') \<Rightarrow> free_loop neededSize es c'))"

definition free :: "int \<Rightarrow> cache \<Rightarrow> unit outcome" where
  "free neededSize c =
     (if hasCapacity neededSize c then (Inr (), c)
      else free_loop neededSize (sort_by compare_count (h_accessCount c)) c)"

text \<open>
  \<^verbatim>\<open>set(key, value)\<close>: the two type tests; a value longer than \<^verbatim>\<open>#maxSize\<close> returns at
  once; otherwise the count is read
  (\<^verbatim>\<open>this.#accessCount.has(key) ? this.#accessCount.get(key) : 0\<close>), then
  \<^verbatim>\<open>this.delete(key)\<close>, \<^verbatim>\<open>this.#free(value.length)\<close>, and the size, the value and the
  count are stored.
\<close>

definition set_entry :: "jsval \<Rightarrow> jsval \<Rightarrow> cache \<Rightarrow> unit outcome" where
  "set_entry key val c =
     (case key of
        JString k \<Rightarrow>
          (case val of
             JBuffer v \<Rightarrow>
               (if h_maxSize c < int (length v) then (Inr (), c)
                else
                  let accessCount =
                        (if Map_has (h_accessCount c) k
                         then Map_get_count (h_accessCount c) k else Num 0)
                  in (case delete key c of
                        (Inl err, c1) \<Rightarrow> (Inl err, c1)
                      | (Inr _, c1) \<Rightarrow>
                          (case free (int (length v)) c1 of
                             (Inl err, c2) \<Rightarrow> (Inl err, c2)
                           | (Inr _, c2) \<Rightarrow>
                               (Inr (),
                                c2\<lparr>h_size := h_size c2 + int (length v),
                                   h_data := AList.update k v (h_data c2),
                                   h_accessCount :=
                                     AList.update k accessCount (h_accessCount c2)\<rparr>))))
           | _ \<Rightarrow> (Inl (TypeError ''Expected value to be an instance of Buffer''), c))
      | _ \<Rightarrow> (Inl (TypeError ''Expected key to be a String''), c))"

text \<open>
  \<^verbatim>\<open>rename(oldKey, newKey)\<close>: the two type tests; \<^verbatim>\<open>false\<close> when the old key is not
  stored or the new key is; otherwise
  \<^verbatim>\<open>this.#accessCount.set(newKey, this.#accessCount.get(oldKey));
    this.#data.set(newKey, this.#data.get(oldKey));
    this.#data.delete(oldKey);\<close>
\<close>

definition rename :: "jsval \<Rightarrow> jsval \<Rightarrow> cache \<Rightarrow> bool outcome" where
  "rename oldKey newKey c =
     (case oldKey of
        JString ok \<Rightarrow>
          (case newKey of
             JString nk \<Rightarrow>
               (case map_of (h_data c) ok of
                  None \<Rightarrow> (Inr False, c)
                | Some v \<Rightarrow>
                    if Map_has (h_data c) nk then (Inr False, c)
                    else
                      (Inr True,
                       c\<lparr>h_accessCount :=
                           AList.update nk (Map_get_count (h_accessCount c) ok)
                             (h_accessCount c),
                         h_data := AList.delete ok (AList.update nk v (h_data c))\<rparr>))
           | _ \<Rightarrow> (Inl (TypeError ''Expected newKey to be a String''), c))
      | _ \<Rightarrow> (Inl (TypeError ''Expected oldKey to be a String''), c))"

text \<open>\<^verbatim>\<open>clear()\<close> empties both maps and resets the size.\<close>

definition clear :: "cache \<Rightarrow> cache" where
  "clear c = c\<lparr>h_size := 0, h_data := [], h_accessCount := []\<rparr>"

section \<open>Sequences of calls and the invariant\<close>

text \<open>
  The sum of the byte lengths of the stored values, which \<^verbatim>\<open>#size\<close> is meant to track.
\<close>

definition total_bytes :: "(string \<times> buffer) list \<Rightarrow> int" where
  "total_bytes m = sum_list (map (\<lambda>e. int (length (snd e))) m)"

text \<open>
  What every cache built by the constructor and used through its methods satisfies (lemma
  \<open>run_inv\<close>): keys are unique in both tables, every stored key has a frequency record
  and every record is a number, and the size field is the byte total, within the capacity.
\<close>

definition cache_inv :: "cache \<Rightarrow> bool" where
  "cache_inv c \<longleftrightarrow>
     0 \<le> h_maxSize c \<and>
     distinct (map fst (h_data c)) \<and>
     distinct (map fst (h_accessCount c)) \<and>
     set (map fst (h_data c)) \<subseteq> set (map fst (h_accessCount c)) \<and>
     list_all (\<lambda>e. is_Num (snd e)) (h_accessCount c) \<and>
     h_size c = total_bytes (h_data c) \<and>
     h_size c \<le> h_maxSize c"

text \<open>
  A call of a public method or accessor, with arbitrary arguments; \<open>perform\<close> is the object
  as the call leaves it, whether it returned or threw.
\<close>

datatype call =
    Call_get jsval
  | Call_set jsval jsval
  | Call_rename jsval jsval
  | Call_has jsval
  | Call_delete jsval
  | Call_keys
  | Call_clear
  | Call_size
  | Call_maxSize

fun perform :: "call \<Rightarrow> cache \<Rightarrow> cache" where
  "perform (Call_get key) c = snd (get key c)"
| "perform (Call_set key val) c = snd (set_entry key val c)"
| "perform (Call_rename oldKey newKey) c = snd (rename oldKey newKey c)"
| "perform (Call_has key) c = snd (has key c)"
| "perform (Call_delete key) c = snd (delete key c)"
| "perform Call_keys c = c"
| "perform Call_clear c = clear c"
| "perform Call_size c = c"
| "perform Call_maxSize c = c"

definition run :: "call list \<Rightarrow> cache \<Rightarrow> cache" where
  "run calls c = fold perform calls c"

section \<open>Least-frequently-used eviction, as the specification words it\<close>

text \<open>
  The specification of \<^verbatim>\<open>Set\<close>, step 4: while the value does not fit and an entry
  remains, evict the single entry with the lowest frequency counter; among entries of equal
  count the earliest in the frequency table goes first. \<open>stored_counts\<close> is the frequency
  table restricted to the stored keys, in table order; \<open>lowest\<close> is the key of its first
  entry of minimal count (lemma \<open>lowest_first\<close>); \<open>evict_lfu\<close> is the loop. It is compared
  with the source's \<^verbatim>\<open>#free\<close>, which sorts once and walks the sorted array.
\<close>

definition stored_counts :: "cache \<Rightarrow> (string \<times> count) list" where
  "stored_counts c = filter (\<lambda>e. Map_has (h_data c) (fst e)) (h_accessCount c)"

definition lowest :: "(string \<times> count) list \<Rightarrow> string" where
  "lowest es =
     fst (hd (filter (\<lambda>e. the_Num (snd e) = min_list (map (\<lambda>e. the_Num (snd e)) es)) es))"

function evict_lfu :: "int \<Rightarrow> cache \<Rightarrow> cache" where
  "evict_lfu n c =
     (if hasCapacity n c \<or> stored_counts c = [] then c
      else evict_lfu n (snd (delete (JString (lowest (stored_counts c))) c)))"
  by pat_completeness auto
termination
proof (relation "measure (\<lambda>(n, c). length (h_data c))")
  show "wf (measure (\<lambda>(n, c). length (h_data c)))" by simp
next
  fix n c
  assume "\<not> (hasCapacity n c \<or> stored_counts c = [])"
  then have ne: "stored_counts c \<noteq> []" by simp
  let ?f = "\<lambda>e :: string \<times> count. the_Num (snd e)"
  let ?m = "min_list (map ?f (stored_counts c))"
  let ?k = "lowest (stored_counts c)"
  have "?m \<in> set (map ?f (stored_counts c))"
    using ne by (simp add: min_list_Min del: set_map)
  then obtain e0 where "e0 \<in> set (stored_counts c)" "?f e0 = ?m"
    by auto
  then have "filter (\<lambda>e. ?f e = ?m) (stored_counts c) \<noteq> []"
    unfolding filter_empty_conv by blast
  then have "hd (filter (\<lambda>e. ?f e = ?m) (stored_counts c))
               \<in> set (filter (\<lambda>e. ?f e = ?m) (stored_counts c))"
    by (rule hd_in_set)
  then have "?k \<in> fst ` set (stored_counts c)"
    by (auto simp: lowest_def)
  then have "map_of (h_data c) ?k \<noteq> None"
    by (auto simp: stored_counts_def Map_has_def)
  then obtain v where v: "map_of (h_data c) ?k = Some v" by auto
  then have "(?k, v) \<in> set (h_data c)" by (rule map_of_SomeD)
  then have "length (AList.delete ?k (h_data c)) < length (h_data c)"
    unfolding AList.delete_eq by (intro length_filter_less [of "(?k, v)"]) auto
  then show "((n, snd (delete (JString ?k) c)), (n, c)) \<in> measure (\<lambda>(n, c). length (h_data c))"
    by (simp add: delete_def v)
qed

declare evict_lfu.simps [simp del]

section \<open>The empty cache\<close>

text \<open>The object a successful constructor call returns.\<close>

definition empty_cache :: "int \<Rightarrow> cache" where
  "empty_cache m = \<lparr>h_maxSize = m, h_size = 0, h_data = [], h_accessCount = []\<rparr>"

section \<open>Auxiliary facts\<close>

lemma total_bytes_nonneg: "0 \<le> total_bytes m"
  unfolding total_bytes_def by (induction m) auto

lemma total_bytes_delete:
  "distinct (map fst m) \<Longrightarrow> map_of m k = Some v \<Longrightarrow>
   total_bytes (AList.delete k m) = total_bytes m - int (length v)"
proof (induction m)
  case Nil
  then show ?case by simp
next
  case (Cons e m)
  show ?case
  proof (cases "fst e = k")
    case True
    with Cons.prems have "k \<notin> fst ` set m" "snd e = v"
      by (auto split: if_splits)
    then show ?thesis using True by (simp add: total_bytes_def)
  next
    case False
    with Cons show ?thesis by (auto simp: total_bytes_def split: if_splits)
  qed
qed

lemma update_fresh: "k \<notin> fst ` set m \<Longrightarrow> AList.update k v m = m @ [(k, v)]"
  by (induction m) auto

lemma total_bytes_update_fresh:
  "k \<notin> fst ` set m \<Longrightarrow> total_bytes (AList.update k v m) = total_bytes m + int (length v)"
  by (simp add: update_fresh total_bytes_def)

lemma list_all_delete: "list_all P m \<Longrightarrow> list_all P (AList.delete k m)"
  by (induction m) auto

lemma list_all_update: "list_all P m \<Longrightarrow> P (k, v) \<Longrightarrow> list_all P (AList.update k v m)"
  by (induction m) auto

lemma dom_delete_eq: "fst ` set (AList.delete k m) = fst ` set m - {k}"
  by (induction m) auto

lemma Map_has_iff: "Map_has m k \<longleftrightarrow> k \<in> fst ` set m"
  by (simp add: Map_has_def map_of_eq_None_iff)

lemma delete_string:
  "delete (JString k) c =
     (case map_of (h_data c) k of
        None \<Rightarrow> (Inr False, c)
      | Some v \<Rightarrow>
          (Inr True,
           c\<lparr>h_size := h_size c - int (length v),
             h_data := AList.delete k (h_data c),
             h_accessCount := AList.delete k (h_accessCount c)\<rparr>))"
  by (simp add: delete_def)

lemma delete_returns: "fst (delete (JString k) c) = Inr (Map_has (h_data c) k)"
  by (simp add: delete_string Map_has_def split: option.splits)

lemma delete_data: "h_data (snd (delete (JString k) c)) = AList.delete k (h_data c)"
  by (auto simp: delete_string map_of_eq_None_iff split: option.splits)

lemma delete_maxSize: "h_maxSize (snd (delete key c)) = h_maxSize c"
  by (simp add: delete_def split: jsval.splits option.splits)

lemma delete_absent: "\<not> Map_has (h_data c) k \<Longrightarrow> delete (JString k) c = (Inr False, c)"
  by (simp add: delete_string Map_has_def)

lemma delete_inv: "cache_inv c \<Longrightarrow> cache_inv (snd (delete key c))"
proof (cases key)
  case (JString k)
  assume inv: "cache_inv c"
  show ?thesis
  proof (cases "map_of (h_data c) k")
    case None
    with JString inv show ?thesis by (simp add: delete_string)
  next
    case (Some v)
    have tb: "total_bytes (AList.delete k (h_data c)) = total_bytes (h_data c) - int (length v)"
      using inv Some by (simp add: cache_inv_def total_bytes_delete)
    have sub: "fst ` set (AList.delete k (h_data c)) \<subseteq> fst ` set (AList.delete k (h_accessCount c))"
      using inv by (auto simp: cache_inv_def dom_delete_eq)
    show ?thesis
      using inv Some JString tb sub total_bytes_nonneg [of "AList.delete k (h_data c)"]
      by (simp add: delete_string cache_inv_def distinct_delete list_all_delete)
  qed
qed (simp_all add: delete_def)

lemma free_loop_step:
  "free_loop n (e # es) c =
     (if hasCapacity n c then (Inr (), c)
      else free_loop n es (snd (delete (JString (fst e)) c)))"
  by (cases "delete (JString (fst e)) c") (use delete_returns [of "fst e" c] in auto)

lemma free_loop_returns: "fst (free_loop n es c) = Inr ()"
  by (induction es arbitrary: c) (simp_all add: free_loop_step del: free_loop.simps(2))

lemma free_loop_inv: "cache_inv c \<Longrightarrow> cache_inv (snd (free_loop n es c))"
  by (induction es arbitrary: c) (simp_all add: free_loop_step delete_inv del: free_loop.simps(2))

lemma free_loop_maxSize: "h_maxSize (snd (free_loop n es c)) = h_maxSize c"
  by (induction es arbitrary: c) (simp_all add: free_loop_step delete_maxSize del: free_loop.simps(2))

lemma free_loop_capacity:
  "cache_inv c \<Longrightarrow> fst ` set (h_data c) \<subseteq> fst ` set es \<Longrightarrow> n \<le> h_maxSize c \<Longrightarrow>
   hasCapacity n (snd (free_loop n es c))"
proof (induction es arbitrary: c)
  case Nil
  then have "h_data c = []" by simp
  with Nil show ?case by (simp add: hasCapacity_def cache_inv_def total_bytes_def)
next
  case (Cons e es)
  show ?case
  proof (cases "hasCapacity n c")
    case True
    then show ?thesis by simp
  next
    case False
    let ?c' = "snd (delete (JString (fst e)) c)"
    have "fst ` set (h_data ?c') \<subseteq> fst ` set es"
      using Cons.prems(2) by (auto simp: delete_data dom_delete_eq)
    then have "hasCapacity n (snd (free_loop n es ?c'))"
      using Cons.IH [of ?c'] Cons.prems by (simp add: delete_inv delete_maxSize)
    with False show ?thesis by (simp add: free_loop_step del: free_loop.simps(2))
  qed
qed

lemma free_loop_subseq: "subseq (h_data (snd (free_loop n es c))) (h_data c)"
proof (induction es arbitrary: c)
  case Nil
  then show ?case by simp
next
  case (Cons e es)
  have "subseq (AList.delete (fst e) (h_data c)) (h_data c)"
    by (simp add: AList.delete_eq)
  then show ?case
    using Cons [of "snd (delete (JString (fst e)) c)"]
    by (auto simp: free_loop_step delete_data simp del: free_loop.simps(2)
             intro: subseq_order.trans)
qed

subsection \<open>The comparator sort is the stable sort by count\<close>

lemma insort_by_key:
  "is_Num (snd x) \<Longrightarrow> list_all (\<lambda>e. is_Num (snd e)) ys \<Longrightarrow>
   insort_by compare_count x ys = insort_key (\<lambda>e. the_Num (snd e)) x ys"
proof (induction ys)
  case Nil
  then show ?case by simp
next
  case (Cons y ys)
  obtain kx a where x: "x = (kx, Num a)"
    using Cons.prems(1) by (cases x; cases "snd x") auto
  obtain ky b where y: "y = (ky, Num b)"
    using Cons.prems(2) by (cases y; cases "snd y") auto
  show ?case using Cons by (simp add: x y)
qed

lemma sort_by_key:
  "list_all (\<lambda>e. is_Num (snd e)) xs \<Longrightarrow>
   sort_by compare_count xs = sort_key (\<lambda>e. the_Num (snd e)) xs"
proof (induction xs)
  case Nil
  then show ?case by (simp add: sort_by_def)
next
  case (Cons x xs)
  then have "list_all (\<lambda>e. is_Num (snd e)) (sort_key (\<lambda>e. the_Num (snd e)) xs)"
    by (simp add: list_all_iff)
  with Cons show ?case
    by (simp add: sort_by_def insort_by_key)
qed

lemma set_sort_by: "set (sort_by cmp xs) = set xs"
proof -
  have "set (insort_by cmp x ys) = insert x (set ys)" for x ys
    by (induction ys) auto
  then show ?thesis
    unfolding sort_by_def by (induction xs) auto
qed

lemma free_returns: "fst (free n c) = Inr ()"
  by (simp add: free_def free_loop_returns)

lemma free_inv: "cache_inv c \<Longrightarrow> cache_inv (snd (free n c))"
  by (simp add: free_def free_loop_inv)

lemma free_maxSize: "h_maxSize (snd (free n c)) = h_maxSize c"
  by (simp add: free_def free_loop_maxSize)

lemma free_subseq: "subseq (h_data (snd (free n c))) (h_data c)"
  by (simp add: free_def free_loop_subseq)

lemma free_capacity:
  "cache_inv c \<Longrightarrow> n \<le> h_maxSize c \<Longrightarrow> hasCapacity n (snd (free n c))"
proof (cases "hasCapacity n c")
  case True
  then show ?thesis by (simp add: free_def)
next
  case False
  assume inv: "cache_inv c" and n: "n \<le> h_maxSize c"
  from inv have "fst ` set (h_data c) \<subseteq> fst ` set (sort_by compare_count (h_accessCount c))"
    by (simp add: cache_inv_def set_sort_by)
  from free_loop_capacity [OF inv this n] False show ?thesis
    by (simp add: free_def)
qed

subsection \<open>set, get, rename and clear keep the invariant\<close>

lemma set_entry_string_buffer:
  "set_entry (JString k) (JBuffer v) c =
     (if h_maxSize c < int (length v) then (Inr (), c)
      else
        let accessCount =
              (if Map_has (h_accessCount c) k
               then Map_get_count (h_accessCount c) k else Num 0);
            c2 = snd (free (int (length v)) (snd (delete (JString k) c)))
        in (Inr (),
            c2\<lparr>h_size := h_size c2 + int (length v),
               h_data := AList.update k v (h_data c2),
               h_accessCount := AList.update k accessCount (h_accessCount c2)\<rparr>))"
proof -
  obtain b c1 where d: "delete (JString k) c = (Inr b, c1)"
    using delete_returns [of k c] by (cases "delete (JString k) c") auto
  obtain c2 where f: "free (int (length v)) c1 = (Inr (), c2)"
    using free_returns [of "int (length v)" c1] by (cases "free (int (length v)) c1") auto
  show ?thesis
    by (simp add: set_entry_def d f Let_def)
qed

lemma set_entry_returns: "fst (set_entry (JString k) (JBuffer v) c) = Inr ()"
  by (simp add: set_entry_string_buffer Let_def)

lemma set_entry_key_fresh:
  "k \<notin> fst ` set (h_data (snd (free n (snd (delete (JString k) c)))))"
proof -
  have "set (h_data (snd (free n (snd (delete (JString k) c)))))
          \<subseteq> set (AList.delete k (h_data c))"
    using free_subseq [of n "snd (delete (JString k) c)"]
    by (auto simp: delete_data dest: list_emb_set)
  then show ?thesis
    using delete_notin_dom [of k "h_data c"] by blast
qed

lemma Map_get_count_Num:
  "list_all (\<lambda>e. is_Num (snd e)) m \<Longrightarrow> Map_has m k \<Longrightarrow> is_Num (Map_get_count m k)"
  by (auto simp: Map_has_def Map_get_count_def list_all_iff split: option.splits dest!: map_of_SomeD)

lemma set_entry_inv:
  assumes "cache_inv c"
  shows "cache_inv (snd (set_entry key val c))"
proof (cases key)
  case (JString k)
  show ?thesis
  proof (cases val)
    case (JBuffer v)
    show ?thesis
    proof (cases "h_maxSize c < int (length v)")
      case True
      with JString JBuffer assms show ?thesis by (simp add: set_entry_string_buffer)
    next
      case False
      define c1 where "c1 = snd (delete (JString k) c)"
      define c2 where "c2 = snd (free (int (length v)) c1)"
      define a where "a = (if Map_has (h_accessCount c) k
               then Map_get_count (h_accessCount c) k else Num 0)"
      have inv1: "cache_inv c1" using assms by (simp add: c1_def delete_inv)
      have inv2: "cache_inv c2" using inv1 by (simp add: c2_def free_inv)
      have m2: "h_maxSize c2 = h_maxSize c"
        by (simp add: c2_def c1_def free_maxSize delete_maxSize)
      have cap: "hasCapacity (int (length v)) c2"
        unfolding c2_def using inv1 False
        by (intro free_capacity) (simp_all add: c1_def delete_maxSize)
      have fresh: "k \<notin> fst ` set (h_data c2)"
        unfolding c2_def c1_def by (rule set_entry_key_fresh)
      have a: "is_Num a"
        using assms by (simp add: a_def cache_inv_def Map_get_count_Num)
      have res: "snd (set_entry key val c) =
            c2\<lparr>h_size := h_size c2 + int (length v),
               h_data := AList.update k v (h_data c2),
               h_accessCount := AList.update k a (h_accessCount c2)\<rparr>"
        using False by (simp add: JString JBuffer set_entry_string_buffer Let_def c2_def c1_def a_def)
      show ?thesis
        unfolding res using inv2 cap fresh a m2
        by (auto simp: cache_inv_def hasCapacity_def total_bytes_update_fresh
            distinct_update list_all_update dom_update)
    qed
  qed (use JString assms in \<open>simp_all add: set_entry_def\<close>)
qed (use assms in \<open>simp_all add: set_entry_def\<close>)

lemma get_inv:
  assumes "cache_inv c"
  shows "cache_inv (snd (get key c))"
proof (cases key)
  case (JString k)
  show ?thesis
  proof (cases "map_of (h_data c) k")
    case None
    with JString assms show ?thesis by (simp add: get_def)
  next
    case (Some v)
    then have "k \<in> fst ` set (h_data c)"
      by (metis map_of_eq_None_iff option.distinct(1))
    with assms have "Map_has (h_accessCount c) k"
      by (auto simp: cache_inv_def Map_has_iff)
    with assms have "is_Num (Map_get_count (h_accessCount c) k)"
      by (simp add: cache_inv_def Map_get_count_Num)
    then have "is_Num (plus_one (Map_get_count (h_accessCount c) k))"
      by (cases "Map_get_count (h_accessCount c) k") auto
    with assms Some JString show ?thesis
      by (auto simp: get_def cache_inv_def distinct_update list_all_update dom_update)
  qed
qed (use assms in \<open>simp_all add: get_def\<close>)

lemma has_state: "snd (has key c) = c"
  by (simp add: has_def split: jsval.splits)

lemma clear_inv: "cache_inv c \<Longrightarrow> cache_inv (clear c)"
  by (simp add: clear_def cache_inv_def total_bytes_def)

lemma new_Cache_inv: "new_Cache cap = Inr c \<Longrightarrow> cache_inv c"
  by (auto simp: new_Cache_def Let_def cache_inv_def total_bytes_def isSafeInteger_def
      less_zero_def to_int_def split: if_splits jsval.splits)

lemma rename_strings:
  "rename (JString ok) (JString nk) c =
     (case map_of (h_data c) ok of
        None \<Rightarrow> (Inr False, c)
      | Some v \<Rightarrow>
          if Map_has (h_data c) nk then (Inr False, c)
          else
            (Inr True,
             c\<lparr>h_accessCount :=
                 AList.update nk (Map_get_count (h_accessCount c) ok) (h_accessCount c),
               h_data := AList.delete ok (AList.update nk v (h_data c))\<rparr>))"
  by (simp add: rename_def)

lemma rename_data:
  assumes "map_of m ok = Some v" "nk \<notin> fst ` set m"
  shows "AList.delete ok (AList.update nk v m) = AList.delete ok m @ [(nk, v)]"
proof -
  from assms have "ok \<noteq> nk"
    by (metis map_of_eq_None_iff option.distinct(1))
  then show ?thesis
    using assms(2) by (simp add: update_fresh AList.delete_eq)
qed

lemma rename_inv:
  assumes "cache_inv c"
  shows "cache_inv (snd (rename oldKey newKey c))"
proof (cases oldKey)
  case old: (JString ok)
  show ?thesis
  proof (cases newKey)
    case new: (JString nk)
    show ?thesis
    proof (cases "map_of (h_data c) ok")
      case None
      with old new assms show ?thesis by (simp add: rename_strings)
    next
      case (Some v)
      show ?thesis
      proof (cases "Map_has (h_data c) nk")
        case True
        with Some old new assms show ?thesis by (simp add: rename_strings)
      next
        case False
        then have fresh: "nk \<notin> fst ` set (h_data c)" by (simp add: Map_has_iff)
        have okin: "ok \<in> fst ` set (h_data c)"
          using Some by (metis map_of_eq_None_iff option.distinct(1))
        have d: "AList.delete ok (AList.update nk v (h_data c))
                  = AList.delete ok (h_data c) @ [(nk, v)]"
          using Some fresh by (rule rename_data)
        have tb: "total_bytes (AList.delete ok (h_data c) @ [(nk, v)]) = total_bytes (h_data c)"
          using assms Some total_bytes_delete [of "h_data c" ok v]
          by (simp add: cache_inv_def total_bytes_def)
        have dist: "distinct (map fst (AList.delete ok (h_data c) @ [(nk, v)]))"
          using assms fresh by (auto simp: cache_inv_def distinct_delete dom_delete_eq)
        have "Map_has (h_accessCount c) ok"
          using assms okin by (auto simp: cache_inv_def Map_has_iff)
        then have num: "is_Num (Map_get_count (h_accessCount c) ok)"
          using assms by (simp add: cache_inv_def Map_get_count_Num)
        have sub: "fst ` set (AList.delete ok (h_data c) @ [(nk, v)])
                \<subseteq> fst ` set (AList.update nk (Map_get_count (h_accessCount c) ok) (h_accessCount c))"
          using assms by (auto simp: cache_inv_def dom_update dom_delete_eq)
        have res: "snd (rename oldKey newKey c) =
             c\<lparr>h_accessCount :=
                 AList.update nk (Map_get_count (h_accessCount c) ok) (h_accessCount c),
               h_data := AList.delete ok (h_data c) @ [(nk, v)]\<rparr>"
          using Some False by (simp add: old new rename_strings d)
        show ?thesis
          unfolding res using assms tb dist num sub
          by (simp add: cache_inv_def distinct_update list_all_update)
      qed
    qed
  qed (use old assms in \<open>simp_all add: rename_def\<close>)
qed (use assms in \<open>simp_all add: rename_def\<close>)

lemma perform_inv: "cache_inv c \<Longrightarrow> cache_inv (perform call c)"
  by (cases call)
     (simp_all add: get_inv set_entry_inv rename_inv has_state delete_inv clear_inv)

lemma run_inv: "cache_inv c \<Longrightarrow> cache_inv (run calls c)"
  unfolding run_def by (induction calls arbitrary: c) (simp_all add: perform_inv)

subsection \<open>The sorted walk of free is least-frequently-used eviction\<close>

lemma lowest_first:
  assumes "es \<noteq> []"
  shows "\<exists>xs a ys. es = xs @ (lowest es, a) # ys \<and>
           (\<forall>e\<in>set xs. the_Num a < the_Num (snd e)) \<and>
           (\<forall>e\<in>set ys. the_Num a \<le> the_Num (snd e))"
proof -
  let ?f = "\<lambda>e :: string \<times> count. the_Num (snd e)"
  let ?m = "min_list (map ?f es)"
  have m: "?m = Min (?f ` set es)"
    using assms by (simp add: min_list_Min)
  then have "?m \<in> ?f ` set es" using assms by simp
  then obtain e0 where "e0 \<in> set es" "?f e0 = ?m"
    by auto
  then have "filter (\<lambda>e. ?f e = ?m) es \<noteq> []"
    unfolding filter_empty_conv by blast
  then obtain y ys' where y: "filter (\<lambda>e. ?f e = ?m) es = y # ys'"
    by (cases "filter (\<lambda>e. ?f e = ?m) es") auto
  from filter_eq_ConsD [OF y]
  obtain us vs where es: "es = us @ y # vs" and us: "\<forall>u\<in>set us. ?f u \<noteq> ?m"
    and fy: "?f y = ?m"
    by blast
  have le: "?m \<le> ?f e" if "e \<in> set es" for e
    using that m by simp
  have low: "lowest es = fst y" by (simp add: lowest_def y)
  have before: "the_Num (snd y) < the_Num (snd e)" if "e \<in> set us" for e
  proof -
    from that es have "e \<in> set es" by simp
    then have "?m \<le> ?f e" by (rule le)
    moreover from that us have "?f e \<noteq> ?m" by blast
    ultimately show ?thesis using fy by simp
  qed
  have after: "the_Num (snd y) \<le> the_Num (snd e)" if "e \<in> set vs" for e
  proof -
    from that es have "e \<in> set es" by simp
    then have "?m \<le> ?f e" by (rule le)
    then show ?thesis using fy by simp
  qed
  have "es = us @ (lowest es, snd y) # vs \<and>
        (\<forall>e\<in>set us. the_Num (snd y) < the_Num (snd e)) \<and>
        (\<forall>e\<in>set vs. the_Num (snd y) \<le> the_Num (snd e))"
  proof (intro conjI ballI)
    show "es = us @ (lowest es, snd y) # vs"
      unfolding low by (simp add: es)
  qed (simp_all add: before after)
  then show ?thesis by (intro exI)
qed

lemma hd_sort_key_lowest:
  assumes "xs \<noteq> []"
  shows "hd (sort_key f xs) = hd (filter (\<lambda>e. f e = min_list (map f xs)) xs)"
proof -
  obtain s S where S: "sort_key f xs = s # S"
    using assms by (cases "sort_key f xs") (auto dest: arg_cong [where f = length])
  have "sorted (map f (sort_key f xs))" by (rule sorted_sort_key)
  then have "\<forall>y\<in>set (sort_key f xs). f s \<le> f y"
    unfolding S by auto
  then have le: "\<forall>y\<in>set xs. f s \<le> f y" by simp
  have "s \<in> set xs" using S by (metis list.set_intros(1) set_sort)
  then have "Min (f ` set xs) = f s"
    using le by (intro Min_eqI) auto
  then have m: "min_list (map f xs) = f s"
    using assms by (simp add: min_list_Min)
  have "filter (\<lambda>y. f y = f s) (sort_key f xs) = filter (\<lambda>y. f y = f s) xs"
    by (rule sort_key_stable)
  then have "filter (\<lambda>y. f y = f s) xs = s # filter (\<lambda>y. f y = f s) S"
    unfolding S by simp
  then have "hd (filter (\<lambda>y. f y = f s) xs) = s"
    by simp
  then show ?thesis by (simp add: m S)
qed

lemma stored_counts_delete:
  assumes "Map_has (h_data c) k"
  shows "stored_counts (snd (delete (JString k) c)) = filter (\<lambda>e. fst e \<noteq> k) (stored_counts c)"
proof -
  from assms obtain v where v: "map_of (h_data c) k = Some v"
    by (auto simp: Map_has_def)
  have "filter (\<lambda>e. Map_has (AList.delete k (h_data c)) (fst e)) (AList.delete k (h_accessCount c))
        = filter (\<lambda>e. fst e \<noteq> k) (filter (\<lambda>e. Map_has (h_data c) (fst e)) (h_accessCount c))"
    by (auto simp: AList.delete_eq Map_has_iff intro!: filter_cong)
  then show ?thesis
    by (simp add: stored_counts_def delete_string v)
qed

lemma free_loop_evict:
  assumes "cache_inv c" "distinct (map fst es)"
    and "filter (\<lambda>e. Map_has (h_data c) (fst e)) es
           = sort_key (\<lambda>e. the_Num (snd e)) (stored_counts c)"
  shows "snd (free_loop n es c) = evict_lfu n c"
  using assms
proof (induction es arbitrary: c)
  case Nil
  then have "stored_counts c = []"
    by (metis length_0_conv length_sort filter.simps(1))
  then show ?case by (simp add: evict_lfu.simps)
next
  case (Cons e es)
  let ?f = "\<lambda>e :: string \<times> count. the_Num (snd e)"
  let ?k = "fst e"
  let ?c' = "snd (delete (JString ?k) c)"
  show ?case
  proof (cases "hasCapacity n c")
    case True
    then show ?thesis by (simp add: evict_lfu.simps)
  next
    case noCap: False
    show ?thesis
    proof (cases "Map_has (h_data c) ?k")
      case False
      then have same: "?c' = c" by (simp add: delete_absent)
      have "snd (free_loop n es c) = evict_lfu n c"
        using Cons.prems False by (intro Cons.IH) simp_all
      then show ?thesis
        using noCap same by (simp add: free_loop_step del: free_loop.simps(2))
    next
      case True
      then have sorted_eq: "sort_key ?f (stored_counts c)
                  = e # filter (\<lambda>e. Map_has (h_data c) (fst e)) es"
        using Cons.prems(3) by simp
      then have ne: "stored_counts c \<noteq> []" by auto
      have "hd (sort_key ?f (stored_counts c)) = e" by (simp add: sorted_eq)
      then have low: "lowest (stored_counts c) = ?k"
        using hd_sort_key_lowest [OF ne, of ?f] by (simp add: lowest_def)
      have spec: "evict_lfu n c = evict_lfu n ?c'"
        using noCap ne by (subst evict_lfu.simps) (simp add: low)
      have notin: "?k \<notin> fst ` set es"
        using Cons.prems(2) by simp
      have "sort_key ?f (stored_counts ?c')
              = filter (\<lambda>x. fst x \<noteq> ?k) (sort_key ?f (stored_counts c))"
        by (simp add: stored_counts_delete [OF True] filter_sort)
      also have "\<dots> = filter (\<lambda>x. fst x \<noteq> ?k) (filter (\<lambda>e. Map_has (h_data c) (fst e)) es)"
        by (simp add: sorted_eq)
      also have "\<dots> = filter (\<lambda>e. Map_has (h_data ?c') (fst e)) es"
        by (auto simp: delete_data Map_has_iff dom_delete_eq intro!: filter_cong)
      finally have rel: "filter (\<lambda>e. Map_has (h_data ?c') (fst e)) es
                           = sort_key ?f (stored_counts ?c')"
        by simp
      have "snd (free_loop n es ?c') = evict_lfu n ?c'"
        using Cons.prems(1,2) rel by (intro Cons.IH) (simp_all add: delete_inv)
      then show ?thesis
        using noCap spec by (simp add: free_loop_step del: free_loop.simps(2))
    qed
  qed
qed

lemma free_evict:
  assumes "cache_inv c"
  shows "free n c = (Inr (), evict_lfu n c)"
proof (cases "hasCapacity n c")
  case True
  then show ?thesis by (simp add: free_def evict_lfu.simps)
next
  case False
  let ?f = "\<lambda>e :: string \<times> count. the_Num (snd e)"
  have sorted: "sort_by compare_count (h_accessCount c) = sort_key ?f (h_accessCount c)"
    using assms by (simp add: cache_inv_def sort_by_key)
  have "distinct (h_accessCount c)" "inj_on fst (set (h_accessCount c))"
    using assms by (simp_all add: cache_inv_def distinct_map)
  then have dist: "distinct (map fst (sort_key ?f (h_accessCount c)))"
    by (simp add: distinct_map)
  have rel: "filter (\<lambda>e. Map_has (h_data c) (fst e)) (sort_key ?f (h_accessCount c))
               = sort_key ?f (stored_counts c)"
    by (simp add: stored_counts_def filter_sort)
  have "snd (free_loop n (sort_key ?f (h_accessCount c)) c) = evict_lfu n c"
    using assms dist rel by (rule free_loop_evict)
  then have "snd (free n c) = evict_lfu n c"
    using False by (simp add: free_def sorted)
  then show ?thesis
    using free_returns [of n c] by (cases "free n c") simp
qed

lemma stored_counts_empty:
  assumes "cache_inv c"
  shows "stored_counts c = [] \<longleftrightarrow> h_data c = []"
proof
  assume "stored_counts c = []"
  then have none: "\<And>x. x \<in> set (h_accessCount c) \<Longrightarrow> fst x \<notin> fst ` set (h_data c)"
    by (simp add: stored_counts_def filter_empty_conv Map_has_iff)
  have sub: "fst ` set (h_data c) \<subseteq> fst ` set (h_accessCount c)"
    using assms by (simp add: cache_inv_def)
  show "h_data c = []"
  proof (rule ccontr)
    assume "h_data c \<noteq> []"
    then obtain e where "e \<in> set (h_data c)"
      by (cases "h_data c") auto
    then have e: "fst e \<in> fst ` set (h_data c)" by (rule imageI)
    with sub have "fst e \<in> fst ` set (h_accessCount c)" by (rule subsetD)
    then obtain x where "x \<in> set (h_accessCount c)" "fst e = fst x"
      by (rule imageE)
    with none [of x] e show False by simp
  qed
next
  assume "h_data c = []"
  then show "stored_counts c = []"
    by (simp add: stored_counts_def Map_has_def)
qed

subsection \<open>Unfolding the methods on concrete inputs\<close>

lemmas eval_defs =
  new_Cache_def isSafeInteger_def less_zero_def to_int_def Let_def run_def set_entry_def
  delete_def free_def hasCapacity_def sort_by_def get_def rename_def has_def Map_has_def
  Map_get_count_def keys_def size_get_def maxSize_get_def clear_def empty_cache_def
  total_bytes_def

subsection \<open>What get and set return\<close>

lemma get_stored: "map_of (h_data c) k = Some v \<Longrightarrow> fst (get (JString k) c) = Inr (JBuffer v)"
  by (simp add: get_def)

lemma get_absent: "map_of (h_data c) k = None \<Longrightarrow> get (JString k) c = (Inr JUndefined, c)"
  by (simp add: get_def)

lemma set_entry_data:
  "int (length v) \<le> h_maxSize c \<Longrightarrow>
   h_data (snd (set_entry (JString k) (JBuffer v) c))
     = h_data (snd (free (int (length v)) (snd (delete (JString k) c)))) @ [(k, v)]"
  using set_entry_key_fresh [of k "int (length v)" c]
  by (simp add: set_entry_string_buffer Let_def update_fresh)

lemma get_state:
  "map_of (h_data c) k = Some v \<Longrightarrow>
   snd (get (JString k) c)
     = c\<lparr>h_accessCount :=
           AList.update k (plus_one (Map_get_count (h_accessCount c) k)) (h_accessCount c)\<rparr>"
  by (simp add: get_def)

lemma stored_count_Num:
  assumes "cache_inv c" "map_of (h_data c) k = Some v"
  shows "\<exists>n. map_of (h_accessCount c) k = Some (Num n)"
proof -
  from assms(2) have "k \<in> fst ` set (h_data c)"
    by (metis map_of_eq_None_iff option.distinct(1))
  with assms(1) have "k \<in> fst ` set (h_accessCount c)"
    by (auto simp: cache_inv_def)
  then obtain a where a: "map_of (h_accessCount c) k = Some a"
    by (metis map_of_eq_None_iff option.exhaust)
  then have "(k, a) \<in> set (h_accessCount c)" by (rule map_of_SomeD)
  with assms(1) have "is_Num a" by (auto simp: cache_inv_def list_all_iff)
  then obtain n where "a = Num n" by (cases a) auto
  with a show ?thesis by simp
qed

lemma rename_succeeds:
  assumes "fst (rename (JString ok) (JString nk) c) = Inr True"
  shows "\<exists>v. map_of (h_data c) ok = Some v \<and> nk \<notin> fst ` set (h_data c) \<and>
             snd (rename (JString ok) (JString nk) c) =
               c\<lparr>h_accessCount :=
                   AList.update nk (Map_get_count (h_accessCount c) ok) (h_accessCount c),
                 h_data := AList.delete ok (h_data c) @ [(nk, v)]\<rparr>"
proof (cases "map_of (h_data c) ok")
  case None
  with assms show ?thesis by (simp add: rename_strings)
next
  case (Some v)
  with assms have fresh: "nk \<notin> fst ` set (h_data c)"
    by (auto simp: rename_strings Map_has_iff split: if_splits)
  then have "\<not> Map_has (h_data c) nk" by (simp add: Map_has_iff)
  then show ?thesis
    using Some fresh by (simp add: rename_strings rename_data)
qed

subsection \<open>The constructor, and the type tests\<close>

lemma new_Cache_safe_integer:
  assumes "0 \<le> n" "n \<le> 2 ^ 53 - 1"
  shows "new_Cache (JNumber (of_int n)) = Inr (empty_cache n)"
proof -
  have "rat_of_int n \<le> rat_of_int (2 ^ 53 - 1)"
    using assms(2) by (simp only: of_int_le_iff)
  then have "\<bar>rat_of_int n\<bar> \<le> 2 ^ 53 - 1"
    using assms(1) by simp
  moreover have "\<not> rat_of_int n < 0"
    using assms(1) by simp
  ultimately show ?thesis
    by (simp add: new_Cache_def isSafeInteger_def less_zero_def to_int_def empty_cache_def)
qed

lemma new_Cache_zero: "new_Cache (JNumber 0) = Inr (empty_cache 0)"
  by (simp add: eval_defs)

lemma isSafeInteger_is_integer: "isSafeInteger x \<Longrightarrow> \<exists>n. x = JNumber (of_int n)"
  by (cases x) (auto simp: isSafeInteger_def intro: sym)

lemma typeof_string: "typeof x = ''string'' \<longleftrightarrow> (\<exists>s. x = JString s)"
  by (cases x) (simp_all add: typeof_def)

lemma instanceof_Buffer_iff: "instanceof_Buffer x \<longleftrightarrow> (\<exists>b. x = JBuffer b)"
  by (cases x) (simp_all add: instanceof_Buffer_def)

subsection \<open>What rename and set do to values and frequency counters\<close>

lemma rename_refused:
  "\<not> Map_has (h_data c) ok \<or> Map_has (h_data c) nk \<Longrightarrow>
   rename (JString ok) (JString nk) c = (Inr False, c)"
  by (auto simp: rename_strings Map_has_def split: option.splits)

lemma rename_moves:
  assumes "Map_has (h_data c) ok" "\<not> Map_has (h_data c) nk"
  shows "fst (rename (JString ok) (JString nk) c) = Inr True"
    and "map_of (h_data (snd (rename (JString ok) (JString nk) c))) nk = map_of (h_data c) ok"
    and "map_of (h_data (snd (rename (JString ok) (JString nk) c))) ok = None"
    and "Map_get_count (h_accessCount (snd (rename (JString ok) (JString nk) c))) nk
           = Map_get_count (h_accessCount c) ok"
    and "h_size (snd (rename (JString ok) (JString nk) c)) = h_size c"
proof -
  from assms obtain v where v: "map_of (h_data c) ok = Some v"
    by (auto simp: Map_has_def)
  from assms have ne: "ok \<noteq> nk" by auto
  show "fst (rename (JString ok) (JString nk) c) = Inr True"
    using assms(2) v by (simp add: rename_strings)
  show "map_of (h_data (snd (rename (JString ok) (JString nk) c))) nk = map_of (h_data c) ok"
    using assms(2) v ne by (simp add: rename_strings delete_conv' update_conv')
  show "map_of (h_data (snd (rename (JString ok) (JString nk) c))) ok = None"
    using assms(2) v by (simp add: rename_strings delete_conv')
  show "Map_get_count (h_accessCount (snd (rename (JString ok) (JString nk) c))) nk
           = Map_get_count (h_accessCount c) ok"
    using assms(2) v by (simp add: rename_strings update_conv' Map_get_count_def)
  show "h_size (snd (rename (JString ok) (JString nk) c)) = h_size c"
    using assms(2) v by (simp add: rename_strings)
qed

lemma set_entry_count:
  "int (length v) \<le> h_maxSize c \<Longrightarrow>
   map_of (h_accessCount (snd (set_entry (JString k) (JBuffer v) c))) k
     = Some (if Map_has (h_accessCount c) k then Map_get_count (h_accessCount c) k else Num 0)"
  by (simp add: set_entry_string_buffer Let_def update_conv')

lemma set_entry_keeps_count:
  assumes "cache_inv c" "Map_has (h_data c) k" "int (length v) \<le> h_maxSize c"
  shows "map_of (h_accessCount (snd (set_entry (JString k) (JBuffer v) c))) k
           = map_of (h_accessCount c) k"
proof -
  from assms(1,2) have "Map_has (h_accessCount c) k"
    by (auto simp: cache_inv_def Map_has_iff)
  then show ?thesis
    using assms(3) by (auto simp: set_entry_count Map_has_def Map_get_count_def)
qed

lemma set_entry_new_count:
  "\<not> Map_has (h_accessCount c) k \<Longrightarrow> int (length v) \<le> h_maxSize c \<Longrightarrow>
   map_of (h_accessCount (snd (set_entry (JString k) (JBuffer v) c))) k = Some (Num 0)"
  by (simp add: set_entry_count)

lemma zero_capacity_rejects_nonempty:
  "h_maxSize c = 0 \<Longrightarrow> v \<noteq> [] \<Longrightarrow> set_entry (JString k) (JBuffer v) c = (Inr (), c)"
  by (simp add: set_entry_def)

lemma eviction_breaks_ties_by_table_order:
  "keys (snd (set_entry (JString ''c'') (JBuffer [7, 7, 7, 7])
           (run [Call_set (JString ''a'') (JBuffer [1, 1, 1, 1]),
                 Call_set (JString ''b'') (JBuffer [2, 2, 2, 2])] (empty_cache 10))))
     = [''b'', ''c'']"
  by (simp add: eval_defs)

subsection \<open>What a storing set leaves behind\<close>

lemma set_entry_maxSize:
  "h_maxSize (snd (set_entry key val c)) = h_maxSize c"
proof (cases key)
  case (JString k)
  then show ?thesis
  proof (cases val)
    case (JBuffer v)
    with JString show ?thesis
      by (simp add: set_entry_string_buffer Let_def free_maxSize delete_maxSize)
  qed (simp_all add: set_entry_def)
qed (simp_all add: set_entry_def)

lemma set_entry_data_evict:
  assumes "cache_inv c" "int (length v) \<le> h_maxSize c"
  shows "h_data (snd (set_entry (JString k) (JBuffer v) c))
           = h_data (evict_lfu (int (length v)) (snd (delete (JString k) c))) @ [(k, v)]"
proof -
  have "cache_inv (snd (delete (JString k) c))"
    using assms(1) by (rule delete_inv)
  then have "free (int (length v)) (snd (delete (JString k) c))
               = (Inr (), evict_lfu (int (length v)) (snd (delete (JString k) c)))"
    by (rule free_evict)
  then show ?thesis
    using set_entry_data [OF assms(2), of k] by simp
qed

section \<open>The claims\<close>

text \<open>
  C1. For every sequence of public operations, after each operation the cache's current
  size equals the sum of the byte lengths of all stored values, and the current size is at
  most the maximum size. The sequence may hold any call with any argument: a call that
  throws leaves the object as it was. Every prefix of a sequence is a sequence, so the
  statement covers the state after each call.
\<close>

theorem size_invariant:
  assumes "new_Cache capacity = Inr c0"
  shows "size_get (run calls c0) = total_bytes (h_data (run calls c0)) \<and>
         size_get (run calls c0) \<le> maxSize_get (run calls c0)"
  using run_inv [OF new_Cache_inv [OF assms], of calls]
  by (simp add: cache_inv_def size_get_def maxSize_get_def)

theorem size_invariant_witness:
  "new_Cache (JNumber 10) = Inr (empty_cache 10) \<and>
   size_get (run [Call_set (JString ''a'') (JBuffer [1, 2, 3, 4, 5, 6]),
                  Call_get (JString ''a''),
                  Call_set (JString ''b'') (JBuffer [1, 2, 3, 4, 5, 6]),
                  Call_rename (JString ''b'') (JString ''c'')] (empty_cache 10))
     = total_bytes (h_data (run [Call_set (JString ''a'') (JBuffer [1, 2, 3, 4, 5, 6]),
                  Call_get (JString ''a''),
                  Call_set (JString ''b'') (JBuffer [1, 2, 3, 4, 5, 6]),
                  Call_rename (JString ''b'') (JString ''c'')] (empty_cache 10))) \<and>
   size_get (run [Call_set (JString ''a'') (JBuffer [1, 2, 3, 4, 5, 6]),
                  Call_get (JString ''a''),
                  Call_set (JString ''b'') (JBuffer [1, 2, 3, 4, 5, 6]),
                  Call_rename (JString ''b'') (JString ''c'')] (empty_cache 10)) = 6 \<and>
   maxSize_get (run [Call_set (JString ''a'') (JBuffer [1, 2, 3, 4, 5, 6]),
                  Call_get (JString ''a''),
                  Call_set (JString ''b'') (JBuffer [1, 2, 3, 4, 5, 6]),
                  Call_rename (JString ''b'') (JString ''c'')] (empty_cache 10)) = 10"
  using size_invariant [of "JNumber 10" "empty_cache 10"
      "[Call_set (JString ''a'') (JBuffer [1, 2, 3, 4, 5, 6]),
        Call_get (JString ''a''),
        Call_set (JString ''b'') (JBuffer [1, 2, 3, 4, 5, 6]),
        Call_rename (JString ''b'') (JString ''c'')]"]
  by (simp add: eval_defs)

text \<open>
  C2. The claim: a cache constructed with capacity 0 stays empty under every
  \<^verbatim>\<open>set\<close>, a zero-length Buffer included. The code at that input: \<open>empty_cache 0\<close> is
  the object \<^verbatim>\<open>new Cache(0)\<close> returns (lemma \<open>new_Cache_zero\<close>), and \<^verbatim>\<open>set\<close> of a
  zero-length Buffer passes the guard \<^verbatim>\<open>this.#maxSize < value.length\<close> and stores the
  entry. A Buffer of positive length is refused (lemma \<open>zero_capacity_rejects_nonempty\<close>).
\<close>

theorem zero_capacity_stores_empty_buffer:
  "set_entry (JString ''k'') (JBuffer []) (empty_cache 0)
     = (Inr (), \<lparr>h_maxSize = 0, h_size = 0, h_data = [(''k'', [])],
                  h_accessCount = [(''k'', Num 0)]\<rparr>) \<and>
   keys (snd (set_entry (JString ''k'') (JBuffer []) (empty_cache 0))) = [''k''] \<and>
   fst (has (JString ''k'') (snd (set_entry (JString ''k'') (JBuffer []) (empty_cache 0))))
     = Inr True \<and>
   fst (get (JString ''k'') (snd (set_entry (JString ''k'') (JBuffer []) (empty_cache 0))))
     = Inr (JBuffer [])"
  by (simp add: eval_defs)

text \<open>
  C3. The claim: a successful \<^verbatim>\<open>rename\<close> removes the old key with its frequency
  record. The code after \<^verbatim>\<open>set('a', v); get('a')\<close> on \<^verbatim>\<open>new Cache(1024)\<close>:
  \<^verbatim>\<open>rename('a', 'b')\<close> returns \<^verbatim>\<open>true\<close> and moves value and count to \<^verbatim>\<open>'b'\<close>,
  but the frequency table still holds the record of \<^verbatim>\<open>'a'\<close>, where \<^verbatim>\<open>delete('a')\<close> in
  the same state removes it. The rest of the claim holds (lemmas \<open>rename_refused\<close> and
  \<open>rename_moves\<close>).
\<close>

theorem rename_leaves_old_frequency_record:
  "rename (JString ''a'') (JString ''b'')
      (run [Call_set (JString ''a'') (JBuffer [1]), Call_get (JString ''a'')]
         (empty_cache 1024))
     = (Inr True,
        \<lparr>h_maxSize = 1024, h_size = 1, h_data = [(''b'', [1])],
          h_accessCount = [(''a'', Num 1), (''b'', Num 1)]\<rparr>) \<and>
   snd (delete (JString ''a'')
      (run [Call_set (JString ''a'') (JBuffer [1]), Call_get (JString ''a'')]
         (empty_cache 1024)))
     = empty_cache 1024"
  by (simp add: eval_defs)

text \<open>
  C4. The claim: a \<^verbatim>\<open>set\<close> that stores gives the entry frequency 0 when the key was
  absent from the cache, and the prior frequency when it was present. The code after
  \<^verbatim>\<open>set('a', v); get('a'); rename('a', 'b')\<close> on \<^verbatim>\<open>new Cache(1024)\<close>: the key
  \<^verbatim>\<open>'a'\<close> is absent (\<^verbatim>\<open>has('a')\<close> is \<^verbatim>\<open>false\<close>), and \<^verbatim>\<open>set('a', w)\<close> stores it
  with frequency 1, read from the record that \<^verbatim>\<open>rename\<close> left behind. The claim holds
  for a stored key and for a key without a record (lemmas \<open>set_entry_keeps_count\<close> and
  \<open>set_entry_new_count\<close>).
\<close>

theorem set_after_rename_inherits_frequency:
  "fst (has (JString ''a'')
      (run [Call_set (JString ''a'') (JBuffer [1]), Call_get (JString ''a''),
            Call_rename (JString ''a'') (JString ''b'')] (empty_cache 1024))) = Inr False \<and>
   set_entry (JString ''a'') (JBuffer [2])
      (run [Call_set (JString ''a'') (JBuffer [1]), Call_get (JString ''a''),
            Call_rename (JString ''a'') (JString ''b'')] (empty_cache 1024))
     = (Inr (),
        \<lparr>h_maxSize = 1024, h_size = 2, h_data = [(''b'', [1]), (''a'', [2])],
          h_accessCount = [(''a'', Num 1), (''b'', Num 1)]\<rparr>)"
  by (simp add: eval_defs)

text \<open>
  C5. For every string key and every Buffer longer than the maximum size, \<^verbatim>\<open>set\<close> is a
  silent no-op: it returns without an error and the whole object is as before, so an
  existing entry for the key keeps its value, its frequency and its share of the size.
  This holds in every state of the object.
\<close>

theorem oversized_set_is_noop:
  assumes "maxSize_get c < int (length v)"
  shows "set_entry (JString k) (JBuffer v) c = (Inr (), c)"
  using assms by (simp add: set_entry_def maxSize_get_def)

theorem oversized_set_is_noop_witness:
  "maxSize_get \<lparr>h_maxSize = 2, h_size = 1, h_data = [(''k'', [7])],
                 h_accessCount = [(''k'', Num 3)]\<rparr> < int (length [1, 2, 3 :: 8 word]) \<and>
   set_entry (JString ''k'') (JBuffer [1, 2, 3])
     \<lparr>h_maxSize = 2, h_size = 1, h_data = [(''k'', [7])], h_accessCount = [(''k'', Num 3)]\<rparr>
   = (Inr (), \<lparr>h_maxSize = 2, h_size = 1, h_data = [(''k'', [7])],
                h_accessCount = [(''k'', Num 3)]\<rparr>)"
proof -
  have h: "maxSize_get \<lparr>h_maxSize = 2, h_size = 1, h_data = [(''k'', [7])],
                 h_accessCount = [(''k'', Num 3)]\<rparr> < int (length [1, 2, 3 :: 8 word])"
    by (simp add: maxSize_get_def)
  from oversized_set_is_noop [OF h, of "''k''"] h show ?thesis by (rule conjI [rotated])
qed

text \<open>
  C6. In every state reached from the constructor by public calls, a \<^verbatim>\<open>set\<close> of a value
  that is no longer than the maximum size removes the old entry of its key, then evicts as
  \<open>evict_lfu\<close> does, then stores: while the value does not fit and an entry remains, the
  stored entry with the lowest frequency counter is removed, and among entries of the same
  lowest count the one earliest in the frequency table is removed first (\<open>lowest\<close>, lemma
  \<open>lowest_first\<close>; no entry remains exactly when \<open>stored_counts\<close> is empty, lemma
  \<open>stored_counts_empty\<close>). The result is a function of the state and the arguments, so equal
  call sequences evict equally.
\<close>

theorem set_evicts_least_frequently_used:
  assumes "new_Cache capacity = Inr c0" and "c = run calls c0"
    and "int (length v) \<le> maxSize_get c"
  shows "set_entry (JString k) (JBuffer v) c =
           (Inr (),
            let c2 = evict_lfu (int (length v)) (snd (delete (JString k) c)) in
            c2\<lparr>h_size := h_size c2 + int (length v),
               h_data := AList.update k v (h_data c2),
               h_accessCount :=
                 AList.update k
                   (if Map_has (h_accessCount c) k
                    then Map_get_count (h_accessCount c) k else Num 0)
                   (h_accessCount c2)\<rparr>)"
proof -
  have "cache_inv c"
    unfolding assms(2) using assms(1) by (intro run_inv new_Cache_inv)
  then have "cache_inv (snd (delete (JString k) c))"
    by (rule delete_inv)
  then have "free (int (length v)) (snd (delete (JString k) c))
               = (Inr (), evict_lfu (int (length v)) (snd (delete (JString k) c)))"
    by (rule free_evict)
  then show ?thesis
    using assms(3) by (simp add: set_entry_string_buffer maxSize_get_def Let_def)
qed

theorem set_evicts_least_frequently_used_witness:
  "new_Cache (JNumber 10) = Inr (empty_cache 10) \<and>
   int (length [7, 7, 7, 7 :: 8 word])
     \<le> maxSize_get (run [Call_set (JString ''a'') (JBuffer [1, 1, 1, 1]),
                          Call_set (JString ''b'') (JBuffer [2, 2, 2, 2]),
                          Call_get (JString ''a'')] (empty_cache 10)) \<and>
   keys (run [Call_set (JString ''a'') (JBuffer [1, 1, 1, 1]),
              Call_set (JString ''b'') (JBuffer [2, 2, 2, 2]),
              Call_get (JString ''a'')] (empty_cache 10)) = [''a'', ''b''] \<and>
   keys (evict_lfu (int (length [7, 7, 7, 7 :: 8 word]))
           (snd (delete (JString ''c'')
              (run [Call_set (JString ''a'') (JBuffer [1, 1, 1, 1]),
                    Call_set (JString ''b'') (JBuffer [2, 2, 2, 2]),
                    Call_get (JString ''a'')] (empty_cache 10))))) = [''a''] \<and>
   keys (snd (set_entry (JString ''c'') (JBuffer [7, 7, 7, 7])
           (run [Call_set (JString ''a'') (JBuffer [1, 1, 1, 1]),
                 Call_set (JString ''b'') (JBuffer [2, 2, 2, 2]),
                 Call_get (JString ''a'')] (empty_cache 10)))) = [''a'', ''c'']"
proof -
  let ?c = "run [Call_set (JString ''a'') (JBuffer [1, 1, 1, 1]),
                 Call_set (JString ''b'') (JBuffer [2, 2, 2, 2]),
                 Call_get (JString ''a'')] (empty_cache 10)"
  let ?v = "[7, 7, 7, 7 :: 8 word]"
  have h: "new_Cache (JNumber 10) = Inr (empty_cache 10)"
    by (simp add: eval_defs)
  have fits: "int (length ?v) \<le> maxSize_get ?c"
    by (simp add: eval_defs)
  have before: "keys ?c = [''a'', ''b'']"
    by (simp add: eval_defs)
  have after: "keys (snd (set_entry (JString ''c'') (JBuffer ?v) ?c)) = [''a'', ''c'']"
    by (simp add: eval_defs)
  have fresh: "''c'' \<notin> fst ` set (h_data (evict_lfu (int (length ?v)) (snd (delete (JString ''c'') ?c))))"
    using set_entry_key_fresh [of "''c''" "int (length ?v)" ?c]
      free_evict [of "snd (delete (JString ''c'') ?c)" "int (length ?v)"]
      run_inv [OF new_Cache_inv [OF h], of "[Call_set (JString ''a'') (JBuffer [1, 1, 1, 1]),
                 Call_set (JString ''b'') (JBuffer [2, 2, 2, 2]),
                 Call_get (JString ''a'')]"]
    by (simp add: delete_inv)
  from set_evicts_least_frequently_used [OF h refl fits, of "''c''"]
  have "keys (snd (set_entry (JString ''c'') (JBuffer ?v) ?c))
          = keys (evict_lfu (int (length ?v)) (snd (delete (JString ''c'') ?c))) @ [''c'']"
    using fresh by (simp add: keys_def Let_def update_fresh)
  with after have spec: "keys (evict_lfu (int (length ?v)) (snd (delete (JString ''c'') ?c))) = [''a'']"
    by simp
  from h fits before spec after show ?thesis by (intro conjI)
qed

text \<open>
  C7. For every string key \<open>k\<close> and Buffer \<open>v\<close> no longer than the maximum size,
  \<^verbatim>\<open>set(k, v)\<close> returns and an immediately following \<^verbatim>\<open>get(k)\<close> returns \<open>v\<close>; when
  \<open>v\<close> is longer than the maximum size and \<open>k\<close> was absent, the following
  \<^verbatim>\<open>get(k)\<close> returns \<^verbatim>\<open>undefined\<close>. Both hold in every state. The value is admitted
  by evicting as needed: in every state reached from the constructor by public calls, after
  a \<^verbatim>\<open>set\<close> of a fitting value the size is within the unchanged maximum size and is the
  byte total of what is stored, which is the new entry after the entries that
  \<open>evict_lfu\<close> leaves of the others; and where the value fits once the old entry of
  \<open>k\<close> is gone, no other entry is removed.
\<close>

theorem set_then_get:
  "(int (length v) \<le> maxSize_get c \<longrightarrow>
      fst (set_entry (JString k) (JBuffer v) c) = Inr () \<and>
      fst (get (JString k) (snd (set_entry (JString k) (JBuffer v) c))) = Inr (JBuffer v)) \<and>
   (maxSize_get c < int (length v) \<and> \<not> Map_has (h_data c) k \<longrightarrow>
      fst (set_entry (JString k) (JBuffer v) c) = Inr () \<and>
      fst (get (JString k) (snd (set_entry (JString k) (JBuffer v) c))) = Inr JUndefined) \<and>
   (new_Cache capacity = Inr c0 \<and> c = run calls c0 \<and> int (length v) \<le> maxSize_get c \<longrightarrow>
      size_get (snd (set_entry (JString k) (JBuffer v) c))
        \<le> maxSize_get (snd (set_entry (JString k) (JBuffer v) c)) \<and>
      maxSize_get (snd (set_entry (JString k) (JBuffer v) c)) = maxSize_get c \<and>
      size_get (snd (set_entry (JString k) (JBuffer v) c))
        = total_bytes (h_data (snd (set_entry (JString k) (JBuffer v) c))) \<and>
      h_data (snd (set_entry (JString k) (JBuffer v) c))
        = h_data (evict_lfu (int (length v)) (snd (delete (JString k) c))) @ [(k, v)]) \<and>
   (int (length v) \<le> maxSize_get c \<and>
    hasCapacity (int (length v)) (snd (delete (JString k) c)) \<longrightarrow>
      h_data (snd (set_entry (JString k) (JBuffer v) c))
        = AList.delete k (h_data c) @ [(k, v)])"
proof (intro conjI impI)
  assume fits: "int (length v) \<le> maxSize_get c"
  then have "map_of (h_data (snd (set_entry (JString k) (JBuffer v) c))) k = Some v"
    by (simp add: set_entry_string_buffer Let_def maxSize_get_def update_conv')
  then show "fst (get (JString k) (snd (set_entry (JString k) (JBuffer v) c))) = Inr (JBuffer v)"
    by (rule get_stored)
next
  assume big: "maxSize_get c < int (length v) \<and> \<not> Map_has (h_data c) k"
  then have "set_entry (JString k) (JBuffer v) c = (Inr (), c)"
    by (simp add: set_entry_def maxSize_get_def)
  with big show "fst (get (JString k) (snd (set_entry (JString k) (JBuffer v) c))) = Inr JUndefined"
    by (simp add: get_absent Map_has_def)
next
  assume reach: "new_Cache capacity = Inr c0 \<and> c = run calls c0 \<and> int (length v) \<le> maxSize_get c"
  then have inv: "cache_inv c"
    by (auto intro: run_inv new_Cache_inv)
  then have inv': "cache_inv (snd (set_entry (JString k) (JBuffer v) c))"
    by (rule set_entry_inv)
  show "size_get (snd (set_entry (JString k) (JBuffer v) c))
        \<le> maxSize_get (snd (set_entry (JString k) (JBuffer v) c))"
    using inv' by (simp add: cache_inv_def size_get_def maxSize_get_def)
  show "size_get (snd (set_entry (JString k) (JBuffer v) c))
        = total_bytes (h_data (snd (set_entry (JString k) (JBuffer v) c)))"
    using inv' by (simp add: cache_inv_def size_get_def)
  show "maxSize_get (snd (set_entry (JString k) (JBuffer v) c)) = maxSize_get c"
    by (simp add: maxSize_get_def set_entry_maxSize)
  show "h_data (snd (set_entry (JString k) (JBuffer v) c))
        = h_data (evict_lfu (int (length v)) (snd (delete (JString k) c))) @ [(k, v)]"
  proof (rule set_entry_data_evict [OF inv])
    from reach have "int (length v) \<le> maxSize_get c" by (rule conjunct2 [THEN conjunct2])
    then show "int (length v) \<le> h_maxSize c"
      by (simp only: maxSize_get_def)
  qed
next
  assume "int (length v) \<le> maxSize_get c \<and>
    hasCapacity (int (length v)) (snd (delete (JString k) c))"
  then show "h_data (snd (set_entry (JString k) (JBuffer v) c))
        = AList.delete k (h_data c) @ [(k, v)]"
    by (simp add: set_entry_data maxSize_get_def free_def delete_data)
qed (simp_all add: set_entry_returns)

theorem set_then_get_witness:
  "new_Cache (JNumber 10) = Inr (empty_cache 10) \<and>
   int (length [7, 7, 7, 7 :: 8 word])
     \<le> maxSize_get (run [Call_set (JString ''a'') (JBuffer [1, 1, 1, 1]),
                          Call_set (JString ''b'') (JBuffer [2, 2, 2, 2]),
                          Call_get (JString ''a'')] (empty_cache 10)) \<and>
   size_get (run [Call_set (JString ''a'') (JBuffer [1, 1, 1, 1]),
                  Call_set (JString ''b'') (JBuffer [2, 2, 2, 2]),
                  Call_get (JString ''a'')] (empty_cache 10)) = 8 \<and>
   \<not> hasCapacity (int (length [7, 7, 7, 7 :: 8 word]))
       (snd (delete (JString ''c'')
          (run [Call_set (JString ''a'') (JBuffer [1, 1, 1, 1]),
                Call_set (JString ''b'') (JBuffer [2, 2, 2, 2]),
                Call_get (JString ''a'')] (empty_cache 10)))) \<and>
   fst (get (JString ''c'')
          (snd (set_entry (JString ''c'') (JBuffer [7, 7, 7, 7])
             (run [Call_set (JString ''a'') (JBuffer [1, 1, 1, 1]),
                   Call_set (JString ''b'') (JBuffer [2, 2, 2, 2]),
                   Call_get (JString ''a'')] (empty_cache 10)))))
     = Inr (JBuffer [7, 7, 7, 7]) \<and>
   size_get (snd (set_entry (JString ''c'') (JBuffer [7, 7, 7, 7])
             (run [Call_set (JString ''a'') (JBuffer [1, 1, 1, 1]),
                   Call_set (JString ''b'') (JBuffer [2, 2, 2, 2]),
                   Call_get (JString ''a'')] (empty_cache 10))))
     \<le> maxSize_get (snd (set_entry (JString ''c'') (JBuffer [7, 7, 7, 7])
             (run [Call_set (JString ''a'') (JBuffer [1, 1, 1, 1]),
                   Call_set (JString ''b'') (JBuffer [2, 2, 2, 2]),
                   Call_get (JString ''a'')] (empty_cache 10)))) \<and>
   h_data (snd (set_entry (JString ''c'') (JBuffer [7, 7, 7, 7])
             (run [Call_set (JString ''a'') (JBuffer [1, 1, 1, 1]),
                   Call_set (JString ''b'') (JBuffer [2, 2, 2, 2]),
                   Call_get (JString ''a'')] (empty_cache 10))))
     = [(''a'', [1, 1, 1, 1]), (''c'', [7, 7, 7, 7])] \<and>
   size_get (snd (set_entry (JString ''c'') (JBuffer [7, 7, 7, 7])
             (run [Call_set (JString ''a'') (JBuffer [1, 1, 1, 1]),
                   Call_set (JString ''b'') (JBuffer [2, 2, 2, 2]),
                   Call_get (JString ''a'')] (empty_cache 10)))) = 8 \<and>
   maxSize_get (empty_cache 4) < int (length [1, 2, 3, 4, 5 :: 8 word]) \<and>
   \<not> Map_has (h_data (empty_cache 4)) ''k'' \<and>
   fst (get (JString ''k'')
          (snd (set_entry (JString ''k'') (JBuffer [1, 2, 3, 4, 5]) (empty_cache 4))))
     = Inr JUndefined"
proof -
  let ?calls = "[Call_set (JString ''a'') (JBuffer [1, 1, 1, 1]),
                 Call_set (JString ''b'') (JBuffer [2, 2, 2, 2]),
                 Call_get (JString ''a'')]"
  let ?c = "run ?calls (empty_cache 10)"
  let ?v = "[7, 7, 7, 7 :: 8 word]"
  let ?c' = "snd (set_entry (JString ''c'') (JBuffer ?v) ?c)"
  have h: "new_Cache (JNumber 10) = Inr (empty_cache 10)"
    by (simp add: eval_defs)
  have fits: "int (length ?v) \<le> maxSize_get ?c"
    by (simp add: eval_defs)
  have full: "size_get ?c = 8"
    by (simp add: eval_defs)
  have nocap: "\<not> hasCapacity (int (length ?v)) (snd (delete (JString ''c'') ?c))"
    by (simp add: eval_defs)
  have stored: "h_data ?c' = [(''a'', [1, 1, 1, 1]), (''c'', [7, 7, 7, 7])]"
    by (simp add: eval_defs)
  note inst = set_then_get [of ?v ?c "''c''" "JNumber 10" "empty_cache 10" ?calls]
  from inst fits have 1: "fst (get (JString ''c'') ?c') = Inr (JBuffer ?v)"
    by blast
  from inst h fits have 2: "size_get ?c' \<le> maxSize_get ?c'"
    and 3: "size_get ?c' = total_bytes (h_data ?c')"
    by blast+
  from 3 have 4: "size_get ?c' = 8"
    unfolding stored by (simp add: total_bytes_def)
  have big: "maxSize_get (empty_cache 4) < int (length [1, 2, 3, 4, 5 :: 8 word])"
    by (simp add: maxSize_get_def empty_cache_def)
  have absent: "\<not> Map_has (h_data (empty_cache 4)) ''k''"
    by (simp add: Map_has_def empty_cache_def)
  from set_then_get [of "[1, 2, 3, 4, 5]" "empty_cache 4" "''k''"] big absent
  have 5: "fst (get (JString ''k'')
          (snd (set_entry (JString ''k'') (JBuffer [1, 2, 3, 4, 5]) (empty_cache 4))))
     = Inr JUndefined"
    by blast
  from h fits full nocap 1 2 stored 4 big absent 5 show ?thesis by (intro conjI)
qed

text \<open>
  C8. In every state reached from the constructor by public calls, and for every string
  key: \<^verbatim>\<open>get\<close> of a key with no entry returns \<^verbatim>\<open>undefined\<close>, without an error, and
  leaves the object as it was; \<^verbatim>\<open>get\<close> of a stored key returns the stored value and
  raises that entry's frequency counter by exactly one. \<^verbatim>\<open>get\<close> never changes the
  stored entries (so it evicts nothing), the current size, the maximum size, or the
  frequency counter of any other key \<open>k'\<close>.
\<close>

theorem get_counts_one_read:
  assumes "new_Cache capacity = Inr c0" and "c = run calls c0"
  shows "(\<not> Map_has (h_data c) k \<longrightarrow> get (JString k) c = (Inr JUndefined, c)) \<and>
         (\<forall>v. map_of (h_data c) k = Some v \<longrightarrow>
            fst (get (JString k) c) = Inr (JBuffer v) \<and>
            (\<exists>n. map_of (h_accessCount c) k = Some (Num n) \<and>
                 map_of (h_accessCount (snd (get (JString k) c))) k = Some (Num (n + 1)))) \<and>
         h_data (snd (get (JString k) c)) = h_data c \<and>
         size_get (snd (get (JString k) c)) = size_get c \<and>
         maxSize_get (snd (get (JString k) c)) = maxSize_get c \<and>
         (k' \<noteq> k \<longrightarrow>
            map_of (h_accessCount (snd (get (JString k) c))) k' = map_of (h_accessCount c) k')"
proof -
  have inv: "cache_inv c"
    unfolding assms(2) using assms(1) by (intro run_inv new_Cache_inv)
  have absent: "\<not> Map_has (h_data c) k \<longrightarrow> get (JString k) c = (Inr JUndefined, c)"
    by (simp add: Map_has_def get_absent)
  have stored: "fst (get (JString k) c) = Inr (JBuffer v) \<and>
            (\<exists>n. map_of (h_accessCount c) k = Some (Num n) \<and>
                 map_of (h_accessCount (snd (get (JString k) c))) k = Some (Num (n + 1)))"
    if v: "map_of (h_data c) k = Some v" for v
  proof -
    from stored_count_Num [OF inv v] obtain n where n: "map_of (h_accessCount c) k = Some (Num n)"
      by blast
    then have "map_of (h_accessCount (snd (get (JString k) c))) k = Some (Num (n + 1))"
      by (simp add: get_state [OF v] update_conv' Map_get_count_def)
    with n show ?thesis by (simp add: get_stored [OF v])
  qed
  have rest: "h_data (snd (get (JString k) c)) = h_data c \<and>
         size_get (snd (get (JString k) c)) = size_get c \<and>
         maxSize_get (snd (get (JString k) c)) = maxSize_get c \<and>
         (k' \<noteq> k \<longrightarrow>
            map_of (h_accessCount (snd (get (JString k) c))) k' = map_of (h_accessCount c) k')"
    by (cases "map_of (h_data c) k")
       (simp_all add: get_absent get_state update_conv' size_get_def maxSize_get_def)
  from absent stored rest show ?thesis by blast
qed

theorem get_counts_one_read_witness:
  "new_Cache (JNumber 10) = Inr (empty_cache 10) \<and>
   get (JString ''b'') (run [Call_set (JString ''a'') (JBuffer [1, 2, 3])] (empty_cache 10))
     = (Inr JUndefined, run [Call_set (JString ''a'') (JBuffer [1, 2, 3])] (empty_cache 10)) \<and>
   fst (get (JString ''a'') (run [Call_set (JString ''a'') (JBuffer [1, 2, 3])] (empty_cache 10)))
     = Inr (JBuffer [1, 2, 3]) \<and>
   map_of (h_accessCount (run [Call_set (JString ''a'') (JBuffer [1, 2, 3])] (empty_cache 10))) ''a''
     = Some (Num 0) \<and>
   map_of (h_accessCount (snd (get (JString ''a'')
        (run [Call_set (JString ''a'') (JBuffer [1, 2, 3])] (empty_cache 10))))) ''a''
     = Some (Num 1) \<and>
   size_get (snd (get (JString ''a'')
        (run [Call_set (JString ''a'') (JBuffer [1, 2, 3])] (empty_cache 10))))
     = size_get (run [Call_set (JString ''a'') (JBuffer [1, 2, 3])] (empty_cache 10))"
proof -
  let ?c = "run [Call_set (JString ''a'') (JBuffer [1, 2, 3])] (empty_cache 10)"
  have h: "new_Cache (JNumber 10) = Inr (empty_cache 10)"
    by (simp add: eval_defs)
  note inst = get_counts_one_read [OF h refl, of "[Call_set (JString ''a'') (JBuffer [1, 2, 3])]"]
  have nb: "\<not> Map_has (h_data ?c) ''b''"
    by (simp add: eval_defs)
  have a: "map_of (h_data ?c) ''a'' = Some [1, 2, 3]"
    by (simp add: eval_defs)
  have cnt: "map_of (h_accessCount ?c) ''a'' = Some (Num 0)"
    by (simp add: eval_defs)
  from inst [of "''b''"] nb
  have 1: "get (JString ''b'') ?c = (Inr JUndefined, ?c)" by blast
  from inst [of "''a''"] a
  have 2: "fst (get (JString ''a'') ?c) = Inr (JBuffer [1, 2, 3])" by blast
  from inst [of "''a''"] a cnt
  have 3: "map_of (h_accessCount (snd (get (JString ''a'') ?c))) ''a'' = Some (Num 1)"
    by fastforce
  from inst [of "''a''"]
  have 4: "size_get (snd (get (JString ''a'') ?c)) = size_get ?c" by blast
  from h 1 2 cnt 3 4 show ?thesis by (intro conjI)
qed

text \<open>
  C9. The claim as stated: every wrongly typed argument raises, a non-integer capacity
  included. At the capacity \<^verbatim>\<open>undefined\<close>, which is not a number, the constructor's
  default parameter takes over and a cache of capacity 0 is returned.
\<close>

theorem undefined_capacity_is_accepted:
  "typeof JUndefined \<noteq> ''number'' \<and> \<not> isSafeInteger JUndefined \<and>
   new_Cache JUndefined = Inr (empty_cache 0)"
  by (simp add: eval_defs typeof_def)

text \<open>
  C9, amended. A key that is not a string makes \<^verbatim>\<open>get\<close>, \<^verbatim>\<open>has\<close>, \<^verbatim>\<open>delete\<close>,
  \<^verbatim>\<open>set\<close> and \<^verbatim>\<open>rename\<close> throw a \<^verbatim>\<open>TypeError\<close>; so does a new key of
  \<^verbatim>\<open>rename\<close> that is not a string, a value of \<^verbatim>\<open>set\<close> that is not a Buffer, and a
  capacity other than \<^verbatim>\<open>undefined\<close> that is negative or fails the constructor's test
  \<^verbatim>\<open>Number.isSafeInteger\<close>, as every non-integer does (lemma
  \<open>isSafeInteger_is_integer\<close>). In each case the object is as before the call: the type tests come
  first.
\<close>

theorem wrong_type_raises:
  "(typeof key \<noteq> ''string'' \<longrightarrow>
      get key c = (Inl (TypeError ''Expected key to be a String''), c) \<and>
      has key c = (Inl (TypeError ''Expected key to be a String''), c) \<and>
      delete key c = (Inl (TypeError ''Expected key to be a String''), c) \<and>
      set_entry key val c = (Inl (TypeError ''Expected key to be a String''), c) \<and>
      rename key other c = (Inl (TypeError ''Expected oldKey to be a String''), c)) \<and>
   (typeof key = ''string'' \<and> typeof other \<noteq> ''string'' \<longrightarrow>
      rename key other c = (Inl (TypeError ''Expected newKey to be a String''), c)) \<and>
   (typeof key = ''string'' \<and> \<not> instanceof_Buffer val \<longrightarrow>
      set_entry key val c
        = (Inl (TypeError ''Expected value to be an instance of Buffer''), c)) \<and>
   (capacity \<noteq> JUndefined \<and> (\<not> isSafeInteger capacity \<or> less_zero capacity) \<longrightarrow>
      new_Cache capacity = Inl (TypeError ''Expected maxSize to be a positive Integer''))"
proof (intro conjI impI)
  assume "typeof key \<noteq> ''string''"
  then have k: "\<forall>s. key \<noteq> JString s" by (auto simp: typeof_def)
  show "get key c = (Inl (TypeError ''Expected key to be a String''), c)"
    using k by (cases key) (auto simp: get_def)
  show "has key c = (Inl (TypeError ''Expected key to be a String''), c)"
    using k by (cases key) (auto simp: has_def)
  show "delete key c = (Inl (TypeError ''Expected key to be a String''), c)"
    using k by (cases key) (auto simp: delete_def)
  show "set_entry key val c = (Inl (TypeError ''Expected key to be a String''), c)"
    using k by (cases key) (auto simp: set_entry_def)
  show "rename key other c = (Inl (TypeError ''Expected oldKey to be a String''), c)"
    using k by (cases key) (auto simp: rename_def)
next
  assume "typeof key = ''string'' \<and> typeof other \<noteq> ''string''"
  then show "rename key other c = (Inl (TypeError ''Expected newKey to be a String''), c)"
    by (cases key; cases other) (simp_all add: rename_def typeof_def)
next
  assume "typeof key = ''string'' \<and> \<not> instanceof_Buffer val"
  then show "set_entry key val c
        = (Inl (TypeError ''Expected value to be an instance of Buffer''), c)"
    by (cases key; cases val) (simp_all add: set_entry_def typeof_def instanceof_Buffer_def)
next
  assume "capacity \<noteq> JUndefined \<and> (\<not> isSafeInteger capacity \<or> less_zero capacity)"
  then show "new_Cache capacity = Inl (TypeError ''Expected maxSize to be a positive Integer'')"
    by (auto simp: new_Cache_def)
qed

theorem wrong_type_raises_witness:
  "typeof (JNumber 123) \<noteq> ''string'' \<and>
   get (JNumber 123) (empty_cache 8) = (Inl (TypeError ''Expected key to be a String''), empty_cache 8) \<and>
   set_entry (JNumber 123) (JBuffer [1]) (empty_cache 8)
     = (Inl (TypeError ''Expected key to be a String''), empty_cache 8) \<and>
   typeof (JString ''k'') = ''string'' \<and> typeof JNull \<noteq> ''string'' \<and>
   rename (JString ''k'') JNull (empty_cache 8)
     = (Inl (TypeError ''Expected newKey to be a String''), empty_cache 8) \<and>
   \<not> instanceof_Buffer (JString ''notBytes'') \<and>
   set_entry (JString ''k'') (JString ''notBytes'') (empty_cache 8)
     = (Inl (TypeError ''Expected value to be an instance of Buffer''), empty_cache 8) \<and>
   JNumber (1 / 2) \<noteq> JUndefined \<and> \<not> isSafeInteger (JNumber (1 / 2)) \<and>
   new_Cache (JNumber (1 / 2)) = Inl (TypeError ''Expected maxSize to be a positive Integer'')"
proof -
  note inst = wrong_type_raises [of "JNumber 123" "empty_cache 8" "JBuffer [1]" JNull "JNumber (1 / 2)"]
  note inst2 = wrong_type_raises [of "JString ''k''" "empty_cache 8" "JString ''notBytes''" JNull "JNumber (1 / 2)"]
  have t1: "typeof (JNumber 123) \<noteq> ''string''" by (simp add: typeof_def)
  have t2: "typeof (JString ''k'') = ''string''" by (simp add: typeof_def)
  have t3: "typeof JNull \<noteq> ''string''" by (simp add: typeof_def)
  have t4: "\<not> instanceof_Buffer (JString ''notBytes'')" by (simp add: instanceof_Buffer_def)
  have t5: "JNumber (1 / 2) \<noteq> JUndefined" by simp
  have "\<lfloor>1 / 2 :: rat\<rfloor> = 0" by (rule floor_unique) simp_all
  then have t6: "\<not> isSafeInteger (JNumber (1 / 2))" by (simp add: isSafeInteger_def)
  from inst t1 have 1: "get (JNumber 123) (empty_cache 8)
      = (Inl (TypeError ''Expected key to be a String''), empty_cache 8)"
    and 2: "set_entry (JNumber 123) (JBuffer [1]) (empty_cache 8)
     = (Inl (TypeError ''Expected key to be a String''), empty_cache 8)"
    by blast+
  from inst2 t2 t3 have 3: "rename (JString ''k'') JNull (empty_cache 8)
     = (Inl (TypeError ''Expected newKey to be a String''), empty_cache 8)"
    by blast
  from inst2 t2 t4 have 4: "set_entry (JString ''k'') (JString ''notBytes'') (empty_cache 8)
     = (Inl (TypeError ''Expected value to be an instance of Buffer''), empty_cache 8)"
    by blast
  from inst t5 t6 have 5: "new_Cache (JNumber (1 / 2))
     = Inl (TypeError ''Expected maxSize to be a positive Integer'')"
    by blast
  from t1 1 2 t2 t3 3 t4 4 t5 t6 5 show ?thesis by (intro conjI)
qed

text \<open>
  C10. \<^verbatim>\<open>keys()\<close> lists the keys in the order of their latest insertion. A \<^verbatim>\<open>set\<close>
  that stores (the value is no longer than the maximum size) puts its key last, whether or
  not the key was stored before; the keys before it are the surviving other keys in their
  earlier order, and all the other keys when nothing had to be evicted. A successful
  \<^verbatim>\<open>rename\<close> removes the old key and puts the new key last.
\<close>

theorem keys_latest_insertion_last:
  "(int (length v) \<le> maxSize_get c \<longrightarrow>
      (\<exists>ks. keys (snd (set_entry (JString k) (JBuffer v) c)) = ks @ [k] \<and>
            subseq ks (removeAll k (keys c)))) \<and>
   (int (length v) \<le> maxSize_get c \<and>
    hasCapacity (int (length v)) (snd (delete (JString k) c)) \<longrightarrow>
      keys (snd (set_entry (JString k) (JBuffer v) c)) = removeAll k (keys c) @ [k]) \<and>
   (fst (rename (JString ok) (JString nk) c) = Inr True \<longrightarrow>
      keys (snd (rename (JString ok) (JString nk) c)) = removeAll ok (keys c) @ [nk])"
proof (intro conjI impI)
  assume fits: "int (length v) \<le> maxSize_get c"
  let ?c2 = "snd (free (int (length v)) (snd (delete (JString k) c)))"
  have "subseq (h_data ?c2) (AList.delete k (h_data c))"
    using free_subseq [of "int (length v)" "snd (delete (JString k) c)"]
    by (simp add: delete_data)
  then have "subseq (map fst (h_data ?c2)) (map fst (AList.delete k (h_data c)))"
    by (rule subseq_map)
  then have "subseq (map fst (h_data ?c2)) (removeAll k (keys c))"
    by (simp add: delete_keys keys_def)
  moreover have "keys (snd (set_entry (JString k) (JBuffer v) c)) = map fst (h_data ?c2) @ [k]"
    using fits by (simp add: keys_def set_entry_data maxSize_get_def)
  ultimately show "\<exists>ks. keys (snd (set_entry (JString k) (JBuffer v) c)) = ks @ [k] \<and>
            subseq ks (removeAll k (keys c))"
    by blast
next
  assume "int (length v) \<le> maxSize_get c \<and>
    hasCapacity (int (length v)) (snd (delete (JString k) c))"
  then show "keys (snd (set_entry (JString k) (JBuffer v) c)) = removeAll k (keys c) @ [k]"
    by (simp add: keys_def set_entry_data maxSize_get_def free_def delete_data delete_keys)
next
  assume "fst (rename (JString ok) (JString nk) c) = Inr True"
  from rename_succeeds [OF this]
  show "keys (snd (rename (JString ok) (JString nk) c)) = removeAll ok (keys c) @ [nk]"
    by (auto simp: keys_def delete_keys)
qed

theorem keys_latest_insertion_last_witness:
  "int (length [9 :: 8 word]) \<le> maxSize_get
      \<lparr>h_maxSize = 10, h_size = 3, h_data = [(''a'', [1]), (''b'', [2]), (''c'', [3])],
        h_accessCount = [(''a'', Num 0), (''b'', Num 0), (''c'', Num 0)]\<rparr> \<and>
   hasCapacity (int (length [9 :: 8 word])) (snd (delete (JString ''a'')
      \<lparr>h_maxSize = 10, h_size = 3, h_data = [(''a'', [1]), (''b'', [2]), (''c'', [3])],
        h_accessCount = [(''a'', Num 0), (''b'', Num 0), (''c'', Num 0)]\<rparr>)) \<and>
   keys (snd (set_entry (JString ''a'') (JBuffer [9])
      \<lparr>h_maxSize = 10, h_size = 3, h_data = [(''a'', [1]), (''b'', [2]), (''c'', [3])],
        h_accessCount = [(''a'', Num 0), (''b'', Num 0), (''c'', Num 0)]\<rparr>))
     = [''b'', ''c'', ''a''] \<and>
   fst (rename (JString ''a'') (JString ''d'')
      \<lparr>h_maxSize = 10, h_size = 3, h_data = [(''a'', [1]), (''b'', [2]), (''c'', [3])],
        h_accessCount = [(''a'', Num 0), (''b'', Num 0), (''c'', Num 0)]\<rparr>) = Inr True \<and>
   keys (snd (rename (JString ''a'') (JString ''d'')
      \<lparr>h_maxSize = 10, h_size = 3, h_data = [(''a'', [1]), (''b'', [2]), (''c'', [3])],
        h_accessCount = [(''a'', Num 0), (''b'', Num 0), (''c'', Num 0)]\<rparr>))
     = [''b'', ''c'', ''d'']"
proof -
  let ?c = "\<lparr>h_maxSize = 10, h_size = 3, h_data = [(''a'', [1 :: 8 word]), (''b'', [2]), (''c'', [3])],
        h_accessCount = [(''a'', Num 0), (''b'', Num 0), (''c'', Num 0)]\<rparr>"
  have fits: "int (length [9 :: 8 word]) \<le> maxSize_get ?c"
    by (simp add: maxSize_get_def)
  have cap: "hasCapacity (int (length [9 :: 8 word])) (snd (delete (JString ''a'') ?c))"
    by (simp add: eval_defs)
  have ren: "fst (rename (JString ''a'') (JString ''d'') ?c) = Inr True"
    by (simp add: eval_defs)
  have ks: "keys ?c = [''a'', ''b'', ''c'']"
    by (simp add: keys_def)
  from keys_latest_insertion_last [of "[9]" ?c "''a''" "''a''" "''d''"] fits cap ren
  have "keys (snd (set_entry (JString ''a'') (JBuffer [9]) ?c)) = removeAll ''a'' (keys ?c) @ [''a'']"
    and "keys (snd (rename (JString ''a'') (JString ''d'') ?c)) = removeAll ''a'' (keys ?c) @ [''d'']"
    by blast+
  then have 1: "keys (snd (set_entry (JString ''a'') (JBuffer [9]) ?c)) = [''b'', ''c'', ''a'']"
    and 2: "keys (snd (rename (JString ''a'') (JString ''d'') ?c)) = [''b'', ''c'', ''d'']"
    unfolding ks by simp_all
  from fits cap 1 ren 2 show ?thesis by (intro conjI)
qed

end
